theory Spec2Isabelle
  imports Main
begin

section \<open>Data model of \<open>src/services/contributions.ts\<close>\<close>

text \<open>
  One element of \<open>ApiResult.contributions\<close>. Counts are JavaScript numbers holding
  integers. The TypeScript type declares \<open>intensity: number\<close>; a JavaScript object may
  still lack the property, which is \<open>None\<close> here.
\<close>

record Contrib =
  date :: string
  count :: int
  color :: string
  intensity :: "int option"

text \<open>One element of \<open>ApiResult.years\<close>; \<open>range_y\<close> is the pair \<open>(start, end)\<close>.\<close>

record YearEntry =
  year :: string
  total :: int
  range_y :: "string \<times> string"

record ApiResult =
  years :: "YearEntry list"
  contributions :: "Contrib list"

section \<open>Calendar days and the date library\<close>

text \<open>
  A \<open>Date\<close> is modelled by the number of its local calendar day, counted from
  1970-01-01 (day 0), following the day arithmetic of the ECMAScript specification
  (\<open>DayFromYear\<close>, \<open>YearFromTime\<close>, \<open>MonthFromTime\<close>, \<open>DateFromTime\<close>, \<open>WeekDay\<close>, \<open>MakeDay\<close>).
  The time of day is dropped: the program compares either two instants with the same time of
  day or a local midnight with the current instant. An invalid \<open>Date\<close> is \<open>None\<close>.
\<close>

definition DayFromYear :: "int \<Rightarrow> int" where
  "DayFromYear y = 365 * (y - 1970) + (y - 1969) div 4 - (y - 1901) div 100 + (y - 1601) div 400"

definition InLeapYear :: "int \<Rightarrow> bool" where
  "InLeapYear y = (y mod 400 = 0 \<or> (y mod 4 = 0 \<and> y mod 100 \<noteq> 0))"

text \<open>Each year has 365 or 366 days, which is what makes the search below terminate.\<close>

lemma div_succ_int: "0 < k \<Longrightarrow> (a + 1) div k = a div k + (if (a + 1) mod k = 0 then 1 else 0)" for a k :: int
proof -
  assume k: "0 < k"
  define q where "q = a div k"
  define r where "r = a mod k"
  have a: "a = q * k + r" by (simp add: q_def r_def)
  have b: "0 \<le> r" "r < k" using k by (auto simp: r_def)
  show ?thesis
  proof (cases "r = k - 1")
    case True
    then have "a + 1 = (q + 1) * k" using a by (simp add: algebra_simps)
    then have "(a + 1) div k = q + 1" "(a + 1) mod k = 0" using k by simp_all
    then show ?thesis by (simp add: q_def)
  next
    case False
    then have lt: "r + 1 < k" "0 \<le> r + 1" using b by linarith+
    have e: "a + 1 = q * k + (r + 1)" using a by linarith
    have "(a + 1) div k = q"
      unfolding e using lt k by simp
    moreover have "(a + 1) mod k = r + 1"
      unfolding e using lt k by simp
    ultimately show ?thesis using b by (auto simp: q_def)
  qed
qed

lemma mod_shift_4: "(y - 1968) mod 4 = 0 \<longleftrightarrow> y mod 4 = 0" for y :: int
  using mod_mult_self2 [of y 4 "- 492"] by simp

lemma mod_shift_100: "(y - 1900) mod 100 = 0 \<longleftrightarrow> y mod 100 = 0" for y :: int
  using mod_mult_self2 [of y 100 "- 19"] by simp

lemma mod_shift_400: "(y - 1600) mod 400 = 0 \<longleftrightarrow> y mod 400 = 0" for y :: int
  using mod_mult_self2 [of y 400 "- 4"] by simp

lemma mod_400_100: "y mod 400 = 0 \<Longrightarrow> y mod 100 = 0" for y :: int
  using dvd_trans [of 100 400 y] by (simp add: mod_eq_0_iff_dvd)

lemma mod_100_4: "y mod 100 = 0 \<Longrightarrow> y mod 4 = 0" for y :: int
  using dvd_trans [of 4 100 y] by (simp add: mod_eq_0_iff_dvd)

lemma DayFromYear_step: "DayFromYear (y + 1) = DayFromYear y + (if InLeapYear y then 366 else 365)"
proof -
  have a: "(y + 1 - 1969) div 4 = (y - 1969) div 4 + (if y mod 4 = 0 then 1 else 0)"
    using div_succ_int [of 4 "y - 1969"] mod_shift_4 [of y] by (simp add: algebra_simps)
  have b: "(y + 1 - 1901) div 100 = (y - 1901) div 100 + (if y mod 100 = 0 then 1 else 0)"
    using div_succ_int [of 100 "y - 1901"] mod_shift_100 [of y] by (simp add: algebra_simps)
  have c: "(y + 1 - 1601) div 400 = (y - 1601) div 400 + (if y mod 400 = 0 then 1 else 0)"
    using div_succ_int [of 400 "y - 1601"] mod_shift_400 [of y] by (simp add: algebra_simps)
  show ?thesis
    unfolding DayFromYear_def InLeapYear_def a b c
    using mod_400_100 [of y] mod_100_4 [of y] by auto
qed

text \<open>\<open>YearFromDay n\<close> is the largest year whose first day is not after \<open>n\<close>, found by
  searching upwards from a year that is not after it.\<close>

function year_search :: "int \<Rightarrow> int \<Rightarrow> int" where
  "year_search y n = (if DayFromYear (y + 1) \<le> n then year_search (y + 1) n else y)"
  by pat_completeness auto
termination
proof (relation "measure (\<lambda>(y, n). nat (n + 1 - DayFromYear (y + 1)))")
  show "wf (measure (\<lambda>(y, n). nat (n + 1 - DayFromYear (y + 1))))"
    by simp
next
  fix y n :: int
  assume le: "DayFromYear (y + 1) \<le> n"
  have s: "DayFromYear (y + 1 + 1) = DayFromYear (y + 1) + (if InLeapYear (y + 1) then 366 else 365)"
    by (rule DayFromYear_step)
  have "DayFromYear (y + 1) < DayFromYear (y + 1 + 1)"
    unfolding s by simp
  with le show "((y + 1, n), y, n) \<in> measure (\<lambda>(y, n). nat (n + 1 - DayFromYear (y + 1)))"
    by simp
qed

declare year_search.simps [simp del]

definition YearFromDay :: "int \<Rightarrow> int" where
  "YearFromDay n = year_search (1970 + (if 0 \<le> n then n div 366 else n div 365)) n"

definition DayWithinYear :: "int \<Rightarrow> int" where
  "DayWithinYear n = n - DayFromYear (YearFromDay n)"

text \<open>Number of days of the year before month \<open>m\<close> (0 is January).\<close>

definition month_start :: "int \<Rightarrow> bool \<Rightarrow> int" where
  "month_start m leap =
     (let L = (if leap then 1 else 0) in
      if m \<le> 0 then 0 else if m = 1 then 31 else if m = 2 then 59 + L
      else if m = 3 then 90 + L else if m = 4 then 120 + L else if m = 5 then 151 + L
      else if m = 6 then 181 + L else if m = 7 then 212 + L else if m = 8 then 243 + L
      else if m = 9 then 273 + L else if m = 10 then 304 + L else 334 + L)"

definition getFullYear :: "int \<Rightarrow> int" where
  "getFullYear n = YearFromDay n"

definition getMonth :: "int \<Rightarrow> int" where
  "getMonth n =
     (let d = DayWithinYear n; leap = InLeapYear (YearFromDay n) in
      if d < month_start 1 leap then 0 else if d < month_start 2 leap then 1
      else if d < month_start 3 leap then 2 else if d < month_start 4 leap then 3
      else if d < month_start 5 leap then 4 else if d < month_start 6 leap then 5
      else if d < month_start 7 leap then 6 else if d < month_start 8 leap then 7
      else if d < month_start 9 leap then 8 else if d < month_start 10 leap then 9
      else if d < month_start 11 leap then 10 else 11)"

definition getDate :: "int \<Rightarrow> int" where
  "getDate n = DayWithinYear n - month_start (getMonth n) (InLeapYear (YearFromDay n)) + 1"

definition MakeDay :: "int \<Rightarrow> int \<Rightarrow> int \<Rightarrow> int" where
  "MakeDay y m d = DayFromYear y + month_start m (InLeapYear y) + d - 1"

definition daysInMonth :: "int \<Rightarrow> int \<Rightarrow> int" where
  "daysInMonth y m =
     (if m = 1 then (if InLeapYear y then 29 else 28)
      else if m = 3 \<or> m = 5 \<or> m = 8 \<or> m = 10 then 30 else 31)"

text \<open>\<open>getDay\<close>: 0 is Sunday; 1970-01-01 was a Thursday.\<close>

definition getDay :: "int \<Rightarrow> int" where
  "getDay n = (n + 4) mod 7"

definition addDays :: "int \<Rightarrow> int \<Rightarrow> int" where
  "addDays n amount = n + amount"

text \<open>\<open>setDay\<close> of date-fns with the default \<open>weekStartsOn = 0\<close>.\<close>

definition setDay :: "int \<Rightarrow> int \<Rightarrow> int" where
  "setDay n dy =
     (let weekStartsOn = 0;
          currentDay = getDay n;
          remainder = dy mod 7;
          dayIndex = (remainder + 7) mod 7;
          diff = (if dayIndex < weekStartsOn then 7 else 0) + dy - currentDay
      in addDays n diff)"

definition isAfter :: "int \<Rightarrow> int \<Rightarrow> bool" where
  "isAfter a b = (a > b)"

definition isSameYear :: "int \<Rightarrow> int \<Rightarrow> bool" where
  "isSameYear a b = (getFullYear a = getFullYear b)"

text \<open>\<open>subYears d k\<close> is \<open>addMonths d (-12 * k)\<close>: the same month and day of the earlier
  year, the day clamped to the length of that month (February 29 becomes February 28).\<close>

definition subYears :: "int \<Rightarrow> int \<Rightarrow> int" where
  "subYears n k =
     (let y = getFullYear n - k; m = getMonth n
      in MakeDay y m (min (getDate n) (daysInMonth y m)))"

subsection \<open>Printing and reading dates\<close>

definition digit_char :: "nat \<Rightarrow> char" where
  "digit_char k = ''0123456789'' ! k"

fun show_nat :: "nat \<Rightarrow> string" where
  "show_nat n = (if n < 10 then [digit_char n] else show_nat (n div 10) @ [digit_char (n mod 10)])"

declare show_nat.simps [simp del]

definition addLeadingZeros :: "nat \<Rightarrow> nat \<Rightarrow> string" where
  "addLeadingZeros n targetLength =
     (let output = show_nat n in replicate (targetLength - length output) CHR ''0'' @ output)"

definition DATE_FORMAT :: string where
  "DATE_FORMAT = ''yyyy-MM-dd''"

definition month_abbr :: "int \<Rightarrow> string" where
  "month_abbr m =
     [''Jan'', ''Feb'', ''Mar'', ''Apr'', ''May'', ''Jun'',
      ''Jul'', ''Aug'', ''Sep'', ''Oct'', ''Nov'', ''Dec''] ! nat m"

text \<open>
  \<open>format\<close> of date-fns for the two patterns the program uses, \<open>yyyy-MM-dd\<close> and \<open>MMM\<close>
  (any other pattern gives the empty string here). The token \<open>yyyy\<close> prints the year of the
  era (\<open>1 - y\<close> for a year \<open>y \<le> 0\<close>) with at least four digits.
\<close>

definition format :: "int \<Rightarrow> string \<Rightarrow> string" where
  "format n pat =
     (if pat = ''yyyy-MM-dd'' then
        (let signedYear = getFullYear n;
             y = (if signedYear > 0 then signedYear else 1 - signedYear)
         in addLeadingZeros (nat y) 4 @ ''-'' @ addLeadingZeros (nat (getMonth n + 1)) 2
            @ ''-'' @ addLeadingZeros (nat (getDate n)) 2)
      else if pat = ''MMM'' then month_abbr (getMonth n)
      else [])"

definition is_digit :: "char \<Rightarrow> bool" where
  "is_digit c = (48 \<le> (of_char c :: nat) \<and> (of_char c :: nat) \<le> 57)"

definition parseInt :: "string \<Rightarrow> int" where
  "parseInt s = foldl (\<lambda>a c. 10 * a + (int (of_char c) - 48)) 0 s"

definition validateDate :: "int \<Rightarrow> int \<Rightarrow> int \<Rightarrow> bool" where
  "validateDate y m d = (0 \<le> m \<and> m \<le> 11 \<and> 1 \<le> d \<and> d \<le> daysInMonth y m)"

definition validateDayOfYearDate :: "int \<Rightarrow> int \<Rightarrow> bool" where
  "validateDayOfYearDate y dayOfYear =
     (1 \<le> dayOfYear \<and> dayOfYear \<le> (if InLeapYear y then 366 else 365))"

text \<open>
  \<open>parseDate\<close> of \<open>parseISO\<close>: the part of the string after the year, matched against
  \<open>-?(DDD | MM | MM-?DD | )\<close>; an absent unit counts as 1. Week dates (\<open>Www\<close>) are not
  modelled and read as invalid; no string of this program contains a \<open>W\<close>.
\<close>

definition parseDate :: "string \<Rightarrow> int \<Rightarrow> int option" where
  "parseDate rest y =
     (let r = (case rest of c # cs \<Rightarrow> (if c = CHR ''-'' then cs else rest) | [] \<Rightarrow> rest);
          mk = (\<lambda>dayOfYear m d.
                  if validateDate y m d \<and> validateDayOfYearDate y dayOfYear
                  then Some (MakeDay y m (max dayOfYear d)) else None)
      in if r = [] then mk 1 0 1
         else if length r = 3 \<and> list_all is_digit r then mk (parseInt r) 0 1
         else if length r = 2 \<and> list_all is_digit r then mk 1 (parseInt r - 1) 1
         else if length r = 4 \<and> list_all is_digit r
           then mk 1 (parseInt (take 2 r) - 1) (parseInt (drop 2 r))
         else if length r = 5 \<and> list_all is_digit (take 2 r) \<and> r ! 2 = CHR ''-''
                 \<and> list_all is_digit (drop 3 r)
           then mk 1 (parseInt (take 2 r) - 1) (parseInt (drop 3 r))
         else None)"

text \<open>
  \<open>parseISO\<close> of date-fns on a string without a time part: the year is the first four
  digits, or a two-digit string is a century (\<open>''20''\<close> is the year 2000); the rest goes to
  \<open>parseDate\<close>. Signed years are not modelled and read as invalid; the program builds its
  strings from natural numbers and from \<open>format\<close>.
\<close>

definition parseISO :: "string \<Rightarrow> int option" where
  "parseISO s =
     (if 4 \<le> length s \<and> list_all is_digit (take 4 s)
        then parseDate (drop 4 s) (parseInt (take 4 s))
      else if length s = 2 \<and> list_all is_digit s
        then parseDate [] (parseInt s * 100)
      else None)"

subsection \<open>The \<open>Date\<close> constructor on a date string\<close>

text \<open>
  \<open>new Date(s)\<close> reads a date-only string of the ECMAScript date format (\<open>YYYY\<close>,
  \<open>YYYY-MM\<close> or \<open>YYYY-MM-DD\<close>) as midnight UTC of that day; \<open>Date_parse\<close> gives the number of
  the UTC day, and \<open>None\<close> for an invalid \<open>Date\<close>. Any other string is read as invalid here
  (the language leaves its reading to the implementation); the source delivers \<open>YYYY-MM-DD\<close>.
\<close>

definition Date_parse :: "string \<Rightarrow> int option" where
  "Date_parse s =
     (if length s = 10 \<and> list_all is_digit (take 4 s) \<and> s ! 4 = CHR ''-''
           \<and> list_all is_digit (take 2 (drop 5 s)) \<and> s ! 7 = CHR ''-'' \<and> list_all is_digit (drop 8 s)
        then (let y = parseInt (take 4 s); m = parseInt (take 2 (drop 5 s)) - 1; d = parseInt (drop 8 s)
              in if validateDate y m d then Some (MakeDay y m d) else None)
      else if length s = 7 \<and> list_all is_digit (take 4 s) \<and> s ! 4 = CHR ''-''
           \<and> list_all is_digit (drop 5 s)
        then (let y = parseInt (take 4 s); m = parseInt (drop 5 s) - 1
              in if validateDate y m 1 then Some (MakeDay y m 1) else None)
      else if length s = 4 \<and> list_all is_digit s
        then Some (MakeDay (parseInt s) 0 1)
      else None)"

text \<open>The decimal string of an integer, as a template string prints a number.\<close>

definition show_int :: "int \<Rightarrow> string" where
  "show_int i = (if i < 0 then CHR ''-'' # show_nat (nat (- i)) else show_nat (nat i))"

text \<open>
  The year key \<open>`${new Date(s).getFullYear()}`\<close> of \<open>combineContributions\<close>. \<open>getFullYear\<close>
  reads the instant in local time: \<open>tz\<close> is the offset of the host's time zone in minutes
  east of UTC (taken as constant), so midnight UTC of day \<open>n\<close> falls on the local day
  \<open>n + tz div 1440\<close>, which is the day before \<open>n\<close> in every zone west of UTC. The year of an
  invalid \<open>Date\<close> is \<open>NaN\<close>.
\<close>

definition yearKey :: "int \<Rightarrow> string \<Rightarrow> string" where
  "yearKey tz s =
     (case Date_parse s of
        None \<Rightarrow> ''NaN''
      | Some n \<Rightarrow> show_int (YearFromDay (n + tz div 1440)))"

section \<open>The merger: \<open>combineContributions\<close>\<close>

text \<open>
  First pass: the table \<open>t\<close> from a count to the colour and intensity of the last primary
  record that has this count (\<open>Map.set\<close> overwrites).
\<close>

definition build_table :: "Contrib list \<Rightarrow> (int \<rightharpoonup> string \<times> int option)" where
  "build_table cs = fold (\<lambda>c t. t(count c \<mapsto> (color c, intensity c))) cs Map.empty"

text \<open>
  Second pass: the callback of \<open>contributions.map\<close>. It returns the new record and, as
  its side effect on the map \<open>years\<close>, the updated number of touched records per year key.
  The year key is \<open>yearKey tz\<close> of the record's date, where \<open>tz\<close> is the offset of the
  host's time zone.
\<close>

definition merge_one ::
  "(string \<rightharpoonup> int) \<Rightarrow> (int \<rightharpoonup> string \<times> int option) \<Rightarrow> int \<Rightarrow>
   Contrib \<Rightarrow> (string \<rightharpoonup> int) \<Rightarrow> Contrib \<times> (string \<rightharpoonup> int)" where
  "merge_one gitlab t tz c ys =
     (case gitlab (date c) of
        Some g \<Rightarrow>
          (let k = yearKey tz (date c);
               ys' = (case ys k of Some n \<Rightarrow> ys(k \<mapsto> n + 1) | None \<Rightarrow> ys(k \<mapsto> 1));
               cnt = count c + g
           in case t cnt of
                Some (col, inten) \<Rightarrow> (c\<lparr>count := cnt, color := col, intensity := inten\<rparr>, ys')
              | None \<Rightarrow> (c\<lparr>count := cnt, color := ''red''\<rparr>, ys'))
      | None \<Rightarrow> (c, ys))"

fun second_pass ::
  "(string \<rightharpoonup> int) \<Rightarrow> (int \<rightharpoonup> string \<times> int option) \<Rightarrow> int \<Rightarrow>
   Contrib list \<Rightarrow> (string \<rightharpoonup> int) \<Rightarrow> Contrib list \<times> (string \<rightharpoonup> int)" where
  "second_pass gitlab t tz [] ys = ([], ys)"
| "second_pass gitlab t tz (c # cs) ys =
     (let (c', ys') = merge_one gitlab t tz c ys;
          (cs', ys'') = second_pass gitlab t tz cs ys'
      in (c' # cs', ys''))"

definition combineContributions ::
  "int \<Rightarrow> (string \<rightharpoonup> int) \<Rightarrow> ApiResult \<Rightarrow> ApiResult" where
  "combineContributions tz gitlabContributions githubContributions =
     (let t = build_table (contributions githubContributions);
          (cs, ys) = second_pass gitlabContributions t tz (contributions githubContributions) Map.empty
      in \<lparr>years = map (\<lambda>e. e\<lparr>total := (case ys (year e) of Some n \<Rightarrow> total e + n | None \<Rightarrow> total e)\<rparr>)
                       (years githubContributions),
          contributions = cs\<rparr>)"

section \<open>The grid projector: \<open>getBlocksForYear\<close>\<close>

datatype error = RangeError | TypeError | Error string

record Block =
  date :: string
  info :: "Contrib option"

definition getContributionsForDate :: "ApiResult \<Rightarrow> string \<Rightarrow> Contrib option" where
  "getContributionsForDate data d = find (\<lambda>contrib. Contrib.date contrib = d) (contributions data)"

text \<open>The \<open>while\<close> loop that collects the first row: one cell per week start.\<close>

function first_row :: "int \<Rightarrow> int \<Rightarrow> ApiResult \<Rightarrow> Block list" where
  "first_row weekStart lastDate data =
     (if weekStart \<le> lastDate
      then (let d = format weekStart DATE_FORMAT
            in \<lparr>date = d, info = getContributionsForDate data d\<rparr>
               # first_row (setDay weekStart 7) lastDate data)
      else [])"
  by pat_completeness auto
termination
proof (relation "measure (\<lambda>(weekStart, lastDate, data). nat (lastDate + 1 - weekStart))")
  show "wf (measure (\<lambda>(weekStart, lastDate, data). nat (lastDate + 1 - weekStart)))"
    by simp
next
  fix weekStart lastDate :: int and data :: ApiResult and d :: string
  assume le: "weekStart \<le> lastDate"
  have "(weekStart + 4) mod 7 < 7"
    by simp
  then have "weekStart < setDay weekStart 7"
    by (simp add: setDay_def getDay_def addDays_def)
  with le show "((setDay weekStart 7, lastDate, data), weekStart, lastDate, data)
      \<in> measure (\<lambda>(weekStart, lastDate, data). nat (lastDate + 1 - weekStart))"
    by simp
qed

declare first_row.simps [simp del]

text \<open>
  The \<open>for\<close> loop over the weekdays \<open>i\<close> of one column, with its \<open>break\<close>. \<open>format\<close> of an
  invalid date throws a \<open>RangeError\<close>; \<open>isAfter\<close> of an invalid date is false.
\<close>

fun week_loop :: "string \<Rightarrow> int \<Rightarrow> ApiResult \<Rightarrow> int list \<Rightarrow> error + Block list" where
  "week_loop s lastDate data [] = Inr []"
| "week_loop s lastDate data (i # is) =
     (case parseISO s of
        None \<Rightarrow> Inl RangeError
      | Some d0 \<Rightarrow>
          (let d = format (setDay d0 i) DATE_FORMAT
           in if (case parseISO d of None \<Rightarrow> False | Some d' \<Rightarrow> isAfter d' lastDate)
              then Inr []
              else (case week_loop s lastDate data is of
                      Inl e \<Rightarrow> Inl e
                    | Inr dates \<Rightarrow> Inr (\<lparr>date = d, info = getContributionsForDate data d\<rparr> # dates))))"

text \<open>\<open>Array.map\<close> with a callback that may throw: the first exception ends the map.\<close>

fun map_result :: "('a \<Rightarrow> error + 'b) \<Rightarrow> 'a list \<Rightarrow> error + 'b list" where
  "map_result f [] = Inr []"
| "map_result f (a # as) =
     (case f a of
        Inl e \<Rightarrow> Inl e
      | Inr b \<Rightarrow> (case map_result f as of Inl e \<Rightarrow> Inl e | Inr bs \<Rightarrow> Inr (b # bs)))"

text \<open>
  \<open>now\<close> is the local calendar day of \<open>new Date()\<close>; \<open>yr\<close> is the requested year, a natural
  number, printed in decimal by the template string. A comparison with an invalid date is
  false: when an end of the window is invalid, the \<open>while\<close> loop does not run and the grid is
  empty.
\<close>

definition getBlocksForYear :: "int \<Rightarrow> nat \<Rightarrow> ApiResult \<Rightarrow> bool \<Rightarrow> error + Block list list" where
  "getBlocksForYear now yr data fy =
     (let firstDate = (if fy then Some (subYears now 1) else parseISO (show_nat yr @ ''-01-01''));
          lastDate = (if fy then Some now else parseISO (show_nat yr @ ''-12-31''))
      in case firstDate of
           None \<Rightarrow> Inr []
         | Some f \<Rightarrow>
             (case lastDate of
                None \<Rightarrow> Inr []
              | Some l \<Rightarrow>
                  (let weekStart = (if getDay f \<noteq> 0 then addDays f (getDay f) else f);
                       firstRowDates = first_row weekStart l data
                   in map_result (\<lambda>dateObj. week_loop (date dateObj) l data [0, 1, 2, 3, 4, 5, 6])
                        firstRowDates)))"

section \<open>The month labeler: \<open>getMonthLabels\<close>\<close>

record MonthLabel =
  x :: nat
  label :: string

text \<open>
  The \<open>reduce\<close> over the weeks, with the column index and the variable \<open>previousMonth\<close>
  as arguments. \<open>week[0].date\<close> of an empty week throws a \<open>TypeError\<close>; the month of an
  invalid date is \<open>NaN\<close>, which differs from every tracked month, so the label is pushed
  and \<open>format\<close> throws a \<open>RangeError\<close>.
\<close>

fun labels_loop :: "Block list list \<Rightarrow> nat \<Rightarrow> int \<Rightarrow> error + MonthLabel list" where
  "labels_loop [] i previousMonth = Inr []"
| "labels_loop (week # weeks) i previousMonth =
     (case week of
        [] \<Rightarrow> Inl TypeError
      | b # _ \<Rightarrow>
          (case parseISO (date b) of
             None \<Rightarrow> Inl RangeError
           | Some firstWeekDay \<Rightarrow>
               (let month = getMonth firstWeekDay + 1;
                    monthChanged = (month \<noteq> previousMonth);
                    firstMonthIsDecember = (i = 0 \<and> month = 12)
                in if monthChanged \<and> \<not> firstMonthIsDecember
                   then (case labels_loop weeks (i + 1) month of
                           Inl e \<Rightarrow> Inl e
                         | Inr labels \<Rightarrow> Inr (\<lparr>x = i, label = format firstWeekDay ''MMM''\<rparr> # labels))
                   else labels_loop weeks (i + 1) previousMonth)))"

definition getMonthLabels :: "Block list list \<Rightarrow> bool \<Rightarrow> error + MonthLabel list" where
  "getMonthLabels blks fy =
     (let weeks = take (if fy then length blks - 1 else length blks) blks
      in labels_loop weeks 0 0)"

section \<open>The year aggregator\<close>

text \<open>\<open>Array.findIndex\<close>: the first index whose element satisfies \<open>P\<close>, or \<open>-1\<close>.\<close>

fun findIndex :: "('a \<Rightarrow> bool) \<Rightarrow> 'a list \<Rightarrow> int" where
  "findIndex P [] = - 1"
| "findIndex P (a # as) =
     (if P a then 0 else (let r = findIndex P as in if r = - 1 then - 1 else r + 1))"

text \<open>\<open>Array.slice(begin, end)\<close>: a negative index counts from the end.\<close>

definition slice :: "'a list \<Rightarrow> int \<Rightarrow> int \<Rightarrow> 'a list" where
  "slice xs b e =
     (let len = int (length xs);
          k = (if b < 0 then max (len + b) 0 else min b len);
          final = (if e < 0 then max (len + e) 0 else min e len)
      in take (nat (final - k)) (drop (nat k) xs))"

definition getContributionCountForLastYear :: "int \<Rightarrow> ApiResult \<Rightarrow> int" where
  "getContributionCountForLastYear now data =
     (let cs = contributions data;
          begin = findIndex (\<lambda>contrib. Contrib.date contrib = format now DATE_FORMAT) cs
      in if begin = - 1 then 0
         else (let e0 = findIndex (\<lambda>contrib. Contrib.date contrib = format (subYears now 1) DATE_FORMAT) cs;
                   e = (if e0 = - 1 then int (length cs) - 1 else e0)
               in foldl (\<lambda>acc contrib. acc + count contrib) 0 (slice cs begin e)))"

definition getContributionCountForYear :: "ApiResult \<Rightarrow> nat \<Rightarrow> int" where
  "getContributionCountForYear data yr =
     (case find (\<lambda>entry. year entry = show_nat yr) (years data) of
        Some yearEntry \<Rightarrow> total yearEntry
      | None \<Rightarrow> 0)"

record GraphData =
  year :: nat
  blocks :: "Block list list"
  monthLabels :: "MonthLabel list"
  totalCount :: int

definition getGraphDataForYear :: "int \<Rightarrow> nat \<Rightarrow> ApiResult \<Rightarrow> bool \<Rightarrow> error + GraphData" where
  "getGraphDataForYear now yr data fy =
     (case getBlocksForYear now yr data fy of
        Inl e \<Rightarrow> Inl e
      | Inr blks \<Rightarrow>
          (case getMonthLabels blks fy of
             Inl e \<Rightarrow> Inl e
           | Inr labels \<Rightarrow>
               Inr \<lparr>year = yr, blocks = blks, monthLabels = labels,
                    totalCount = (if fy then getContributionCountForLastYear now data
                                  else getContributionCountForYear data yr)\<rparr>))"

section \<open>The orchestrator: \<open>getGitHubGraphData\<close>\<close>

record RequestOptions =
  fullYear :: bool
  gitHubUsername :: "string option"
  gitLabUsername :: "string option"
  years :: "nat list"

text \<open>
  The two \<open>fetch\<close> results are arguments: \<open>githubData\<close> is the parsed body of the first
  request and \<open>gitlabData\<close> that of the second. \<open>tz\<close> is the offset of the host's time
  zone and \<open>now\<close> the local calendar day of the call.
\<close>

definition getGitHubGraphData ::
  "int \<Rightarrow> int \<Rightarrow> ApiResult \<Rightarrow> (string \<rightharpoonup> int) \<Rightarrow> RequestOptions
   \<Rightarrow> error + GraphData list" where
  "getGitHubGraphData tz now githubData gitlabData options =
     (let data = combineContributions tz gitlabData githubData
      in if ApiResult.years data = [] then Inl (Error ''No data available'')
         else map_result
                (\<lambda>yr. let isCurrentYear = (case parseISO (show_nat yr) of
                                              None \<Rightarrow> False
                                            | Some d \<Rightarrow> isSameYear d now)
                       in getGraphDataForYear now yr data (isCurrentYear \<and> fullYear options))
                (years options))"

section \<open>Example data\<close>

text \<open>The scenario of the specification: two primary records, one of them also in the
  secondary source.\<close>

definition example_primary :: ApiResult where
  "example_primary =
     \<lparr>ApiResult.years = [\<lparr>YearEntry.year = ''2023'', total = 8, range_y = (''2023-01-01'', ''2023-12-31'')\<rparr>],
      contributions = [\<lparr>Contrib.date = ''2023-06-01'', count = 5, color = ''#7bc96f'', intensity = Some 2\<rparr>,
                       \<lparr>Contrib.date = ''2023-06-02'', count = 3, color = ''#c6e48b'', intensity = Some 1\<rparr>]\<rparr>"

definition example_secondary :: "string \<rightharpoonup> int" where
  "example_secondary = [''2023-06-01'' \<mapsto> 2]"

text \<open>One record dated on a New Year's Day, with the summaries of that year and the year before.\<close>

definition example_new_year :: ApiResult where
  "example_new_year =
     \<lparr>ApiResult.years = [\<lparr>YearEntry.year = ''2023'', total = 5, range_y = (''2023-01-01'', ''2023-12-31'')\<rparr>,
                         \<lparr>YearEntry.year = ''2022'', total = 9, range_y = (''2022-01-01'', ''2022-12-31'')\<rparr>],
      contributions = [\<lparr>Contrib.date = ''2023-01-01'', count = 5, color = ''#7bc96f'', intensity = Some 2\<rparr>]\<rparr>"

text \<open>Three records around 2024-03-15 and the day one year before it, newest first and oldest first.\<close>

definition example_descending :: ApiResult where
  "example_descending =
     \<lparr>ApiResult.years = [],
      contributions = [\<lparr>Contrib.date = ''2024-03-15'', count = 5, color = ''#7bc96f'', intensity = Some 2\<rparr>,
                       \<lparr>Contrib.date = ''2024-03-14'', count = 3, color = ''#c6e48b'', intensity = Some 1\<rparr>,
                       \<lparr>Contrib.date = ''2023-03-15'', count = 7, color = ''#7bc96f'', intensity = Some 2\<rparr>]\<rparr>"

definition example_ascending :: ApiResult where
  "example_ascending =
     \<lparr>ApiResult.years = [],
      contributions = [\<lparr>Contrib.date = ''2023-03-15'', count = 7, color = ''#7bc96f'', intensity = Some 2\<rparr>,
                       \<lparr>Contrib.date = ''2024-03-14'', count = 3, color = ''#c6e48b'', intensity = Some 1\<rparr>,
                       \<lparr>Contrib.date = ''2024-03-15'', count = 5, color = ''#7bc96f'', intensity = Some 2\<rparr>]\<rparr>"

section \<open>Auxiliary notions for the proofs\<close>

text \<open>The month of a day of the year, as \<open>getMonth\<close> computes it.\<close>

definition month_of_day :: "int \<Rightarrow> bool \<Rightarrow> int" where
  "month_of_day d leap =
     (if d < month_start 1 leap then 0 else if d < month_start 2 leap then 1
      else if d < month_start 3 leap then 2 else if d < month_start 4 leap then 3
      else if d < month_start 5 leap then 4 else if d < month_start 6 leap then 5
      else if d < month_start 7 leap then 6 else if d < month_start 8 leap then 7
      else if d < month_start 9 leap then 8 else if d < month_start 10 leap then 9
      else if d < month_start 11 leap then 10 else 11)"

text \<open>The length of a month, from the leap flag of its year.\<close>

definition daysInMonth_of :: "int \<Rightarrow> bool \<Rightarrow> int" where
  "daysInMonth_of m leap =
     (if m = 1 then (if leap then 29 else 28)
      else if m = 3 \<or> m = 5 \<or> m = 8 \<or> m = 10 then 30 else 31)"

text \<open>The Sunday on or before a day; the cell of a day; the cells of one week column up to the
  last date; the Sundays from one Sunday up to the last date.\<close>

definition sunday_of :: "int \<Rightarrow> int" where
  "sunday_of n = n - getDay n"

definition cell :: "ApiResult \<Rightarrow> int \<Rightarrow> Block" where
  "cell data n = \<lparr>Block.date = format n DATE_FORMAT,
                  info = getContributionsForDate data (format n DATE_FORMAT)\<rparr>"

definition week_cells :: "ApiResult \<Rightarrow> int \<Rightarrow> int \<Rightarrow> Block list" where
  "week_cells data l s = map (cell data) [s..min (s + 6) l]"

function week_starts :: "int \<Rightarrow> int \<Rightarrow> int list" where
  "week_starts s l = (if s \<le> l then s # week_starts (s + 7) l else [])"
  by pat_completeness auto
termination
  by (relation "measure (\<lambda>(s, l). nat (l + 1 - s))") auto

declare week_starts.simps [simp del]

text \<open>The grid of the window from \<open>f\<close> to \<open>l\<close>: the weeks from the week of \<open>f + getDay f\<close> on.\<close>

definition grid :: "int \<Rightarrow> int \<Rightarrow> ApiResult \<Rightarrow> Block list list" where
  "grid f l data = map (week_cells data l) (week_starts (sunday_of (f + getDay f)) l)"

text \<open>A week column that the month labeler can read: it has a first cell, with a date that
  \<open>parseISO\<close> accepts.\<close>

definition labelled :: "Block list \<Rightarrow> bool" where
  "labelled week = (case week of [] \<Rightarrow> False | b # _ \<Rightarrow> parseISO (Block.date b) \<noteq> None)"

section \<open>Calendar arithmetic\<close>

lemma DayFromYear_step_bounds:
  "DayFromYear y + 365 \<le> DayFromYear (y + 1) \<and> DayFromYear (y + 1) \<le> DayFromYear y + 366"
  by (simp add: DayFromYear_step)

lemma DayFromYear_less_add: "DayFromYear y < DayFromYear (y + 1 + int k)"
proof (induction k)
  case 0
  show ?case by (simp add: DayFromYear_step)
next
  case (Suc k)
  have "DayFromYear (y + 1 + int (Suc k)) = DayFromYear ((y + 1 + int k) + 1)"
    by (simp add: algebra_simps)
  also have "\<dots> > DayFromYear (y + 1 + int k)"
    using DayFromYear_step_bounds [of "y + 1 + int k"] by linarith
  finally show ?case using Suc.IH by linarith
qed

lemma DayFromYear_strict_mono: "a < b \<Longrightarrow> DayFromYear a < DayFromYear b"
  using DayFromYear_less_add [of a "nat (b - a - 1)"] by simp

lemma DayFromYear_mono: "a \<le> b \<Longrightarrow> DayFromYear a \<le> DayFromYear b"
  using DayFromYear_strict_mono [of a b] by (cases "a = b") auto

lemma year_search_spec:
  "DayFromYear y \<le> n \<Longrightarrow>
     DayFromYear (year_search y n) \<le> n \<and> n < DayFromYear (year_search y n + 1)"
proof (induction y n rule: year_search.induct)
  case (1 y n)
  show ?case
  proof (cases "DayFromYear (y + 1) \<le> n")
    case True
    then have "year_search y n = year_search (y + 1) n"
      by (subst year_search.simps) simp
    with "1.IH" [OF True True] show ?thesis by simp
  next
    case False
    then have "year_search y n = y"
      by (subst year_search.simps) simp
    with False "1.prems" show ?thesis by simp
  qed
qed

lemma DayFromYear_1970: "DayFromYear 1970 = 0"
  by (simp add: DayFromYear_def)

lemma DayFromYear_upper: "DayFromYear (1970 + int k) \<le> 366 * int k"
proof (induction k)
  case 0
  show ?case by (simp add: DayFromYear_1970)
next
  case (Suc k)
  have "DayFromYear (1970 + int (Suc k)) = DayFromYear ((1970 + int k) + 1)"
    by (simp add: algebra_simps)
  also have "\<dots> \<le> DayFromYear (1970 + int k) + 366"
    using DayFromYear_step_bounds [of "1970 + int k"] by linarith
  finally show ?case using Suc.IH by simp
qed

lemma DayFromYear_upper_neg: "DayFromYear (1970 - int k) \<le> - 365 * int k"
proof (induction k)
  case 0
  show ?case by (simp add: DayFromYear_1970)
next
  case (Suc k)
  have "DayFromYear (1970 - int k) = DayFromYear ((1970 - int (Suc k)) + 1)"
    by (simp add: algebra_simps)
  also have "\<dots> \<ge> DayFromYear (1970 - int (Suc k)) + 365"
    using DayFromYear_step_bounds [of "1970 - int (Suc k)"] by linarith
  finally show ?case using Suc.IH by simp
qed

lemma year_guess: "DayFromYear (1970 + (if 0 \<le> n then n div 366 else n div 365)) \<le> n"
proof (cases "0 \<le> n")
  case True
  then have "0 \<le> n div 366" by simp
  then have "DayFromYear (1970 + n div 366) \<le> 366 * (n div 366)"
    using DayFromYear_upper [of "nat (n div 366)"] by simp
  also have "\<dots> \<le> n"
    using mult_div_mod_eq [of 366 n] pos_mod_sign [of 366 n] by linarith
  finally show ?thesis using True by simp
next
  case False
  then have "n div 365 \<le> 0"
    using mult_div_mod_eq [of 365 n] pos_mod_sign [of 365 n] by linarith
  then have "DayFromYear (1970 + n div 365) \<le> 365 * (n div 365)"
    using DayFromYear_upper_neg [of "nat (- (n div 365))"] by simp
  also have "\<dots> \<le> n"
    using mult_div_mod_eq [of 365 n] pos_mod_sign [of 365 n] by linarith
  finally show ?thesis using False by simp
qed

lemma YearFromDay_spec:
  "DayFromYear (YearFromDay n) \<le> n \<and> n < DayFromYear (YearFromDay n + 1)"
  unfolding YearFromDay_def by (rule year_search_spec) (rule year_guess)

lemma YearFromDay_unique:
  assumes "DayFromYear y \<le> n" and "n < DayFromYear (y + 1)"
  shows "YearFromDay n = y"
proof (rule ccontr)
  assume ne: "YearFromDay n \<noteq> y"
  note s = YearFromDay_spec [of n]
  show False
  proof (cases "YearFromDay n < y")
    case True
    then have "DayFromYear (YearFromDay n + 1) \<le> DayFromYear y"
      by (intro DayFromYear_mono) simp
    with s assms show False by linarith
  next
    case False
    with ne have "y + 1 \<le> YearFromDay n" by simp
    then have "DayFromYear (y + 1) \<le> DayFromYear (YearFromDay n)"
      by (rule DayFromYear_mono)
    with s assms show False by linarith
  qed
qed


lemma DayWithinYear_bounds:
  "0 \<le> DayWithinYear n \<and> DayWithinYear n < (if InLeapYear (YearFromDay n) then 366 else 365)"
  using YearFromDay_spec [of n] DayFromYear_step [of "YearFromDay n"]
  by (simp add: DayWithinYear_def split: if_splits)

lemma getMonth_range: "0 \<le> getMonth n \<and> getMonth n \<le> 11"
  by (simp add: getMonth_def Let_def)

lemma MakeDay_fields: "MakeDay (YearFromDay n) (getMonth n) (getDate n) = n"
  by (simp add: MakeDay_def getDate_def DayWithinYear_def)

lemma YearFromDay_range:
  assumes "DayFromYear a \<le> n" and "n < DayFromYear b"
  shows "a \<le> YearFromDay n \<and> YearFromDay n < b"
proof -
  note s = YearFromDay_spec [of n]
  have "a \<le> YearFromDay n"
  proof (rule ccontr)
    assume "\<not> a \<le> YearFromDay n"
    then have "DayFromYear (YearFromDay n + 1) \<le> DayFromYear a"
      by (intro DayFromYear_mono) simp
    with s assms show False by linarith
  qed
  moreover have "YearFromDay n < b"
  proof (rule ccontr)
    assume "\<not> YearFromDay n < b"
    then have "DayFromYear b \<le> DayFromYear (YearFromDay n)"
      by (intro DayFromYear_mono) simp
    with s assms show False by linarith
  qed
  ultimately show ?thesis by simp
qed

lemma month_start_simps:
  "month_start 0 l = 0" "month_start 1 l = 31" "month_start 2 l = 59 + (if l then 1 else 0)"
  "month_start 3 l = 90 + (if l then 1 else 0)" "month_start 4 l = 120 + (if l then 1 else 0)"
  "month_start 5 l = 151 + (if l then 1 else 0)" "month_start 6 l = 181 + (if l then 1 else 0)"
  "month_start 7 l = 212 + (if l then 1 else 0)" "month_start 8 l = 243 + (if l then 1 else 0)"
  "month_start 9 l = 273 + (if l then 1 else 0)" "month_start 10 l = 304 + (if l then 1 else 0)"
  "month_start 11 l = 334 + (if l then 1 else 0)"
  by (simp_all add: month_start_def)

lemma getMonth_month_of_day: "getMonth n = month_of_day (DayWithinYear n) (InLeapYear (YearFromDay n))"
  by (simp add: getMonth_def month_of_day_def Let_def)

lemma daysInMonth_eq: "daysInMonth y m = daysInMonth_of m (InLeapYear y)"
  by (simp add: daysInMonth_def daysInMonth_of_def)

lemma month_of_day_range: "0 \<le> month_of_day d l \<and> month_of_day d l \<le> 11"
  by (simp add: month_of_day_def)

lemma month_of_day_lower: "0 \<le> d \<Longrightarrow> month_start (month_of_day d l) l \<le> d"
  by (simp add: month_of_day_def month_start_simps)

lemma month_of_day_upper:
  "month_of_day d l \<le> 10 \<Longrightarrow> d < month_start (month_of_day d l + 1) l"
  by (simp add: month_of_day_def month_start_simps split: if_splits)

lemma month_len:
  assumes "0 \<le> m" and "m \<le> 10"
  shows "month_start (m + 1) l - month_start m l = daysInMonth_of m l"
proof -
  from assms have "m \<in> {0, 1, 2, 3, 4, 5, 6, 7, 8, 9, 10}"
    by simp presburger
  then show ?thesis
    by (elim insertE emptyE) (simp_all add: month_start_simps daysInMonth_of_def)
qed

lemma month_start_11: "month_start 11 l + daysInMonth_of 11 l = (if l then 366 else 365)"
  by (simp add: month_start_simps daysInMonth_of_def)

lemma getDate_range: "1 \<le> getDate n \<and> getDate n \<le> daysInMonth (YearFromDay n) (getMonth n)"
proof -
  define d where "d = DayWithinYear n"
  define l where "l = InLeapYear (YearFromDay n)"
  define m where "m = month_of_day d l"
  have b: "0 \<le> d" "d < (if l then 366 else 365)"
    using DayWithinYear_bounds [of n] by (simp_all add: d_def l_def)
  have r: "0 \<le> m" "m \<le> 11"
    using month_of_day_range [of d l] by (simp_all add: m_def)
  have lo: "month_start m l \<le> d"
    unfolding m_def using b(1) by (rule month_of_day_lower)
  have hi: "d < month_start m l + daysInMonth_of m l"
  proof (cases "m \<le> 10")
    case True
    then have "d < month_start (m + 1) l"
      unfolding m_def by (rule month_of_day_upper)
    with month_len [OF r(1) True, of l] show ?thesis by linarith
  next
    case False
    with r have "m = 11" by simp
    with b(2) month_start_11 [of l] show ?thesis by simp
  qed
  have "getDate n = d - month_start m l + 1"
    by (simp add: getDate_def getMonth_month_of_day d_def l_def m_def)
  moreover have "daysInMonth (YearFromDay n) (getMonth n) = daysInMonth_of m l"
    by (simp add: daysInMonth_eq getMonth_month_of_day d_def l_def m_def)
  ultimately show ?thesis
    using lo hi by simp
qed

section \<open>Printing and reading back a date\<close>

lemma digit_char_cases: "k < 10 \<Longrightarrow> k \<in> {0, 1, 2, 3, 4, 5, 6, 7, 8, 9}" for k :: nat
  by auto

lemma is_digit_digit_char [simp]: "k < 10 \<Longrightarrow> is_digit (digit_char k)"
  by (drule digit_char_cases) (auto simp: is_digit_def digit_char_def)

lemma of_char_digit_char [simp]: "k < 10 \<Longrightarrow> of_char (digit_char k) = 48 + k"
  by (drule digit_char_cases) (auto simp: digit_char_def)

lemma digit_char_not_dash [simp]: "k < 10 \<Longrightarrow> digit_char k \<noteq> CHR ''-''"
  by (drule digit_char_cases) (auto simp: digit_char_def)

lemma not_digit_dash [simp]: "\<not> is_digit CHR ''-''"
  by (simp add: is_digit_def)

lemma digit_char_0: "digit_char 0 = CHR ''0''"
  by (simp add: digit_char_def)

lemma show_nat_1: "n < 10 \<Longrightarrow> show_nat n = [digit_char n]"
  by (subst show_nat.simps) simp

lemma show_nat_2: "10 \<le> n \<Longrightarrow> n < 100 \<Longrightarrow> show_nat n = [digit_char (n div 10), digit_char (n mod 10)]"
  by (subst show_nat.simps) (simp add: show_nat_1)

lemma div_10_10: "n div 10 div 10 = n div 100" for n :: nat
  using div_mult2_eq [of n 10 10] by simp

lemma div_10_100: "n div 10 div 100 = n div 1000" for n :: nat
  using div_mult2_eq [of n 10 100] by simp

lemma div_10_10_mod: "n div 10 div 10 mod 10 = n div 100 mod 10" for n :: nat
  by (simp only: div_10_10)

lemma show_nat_3:
  assumes "100 \<le> n" and "n < 1000"
  shows "show_nat n = [digit_char (n div 100), digit_char (n div 10 mod 10), digit_char (n mod 10)]"
proof -
  have "show_nat n = show_nat (n div 10) @ [digit_char (n mod 10)]"
    using assms by (subst show_nat.simps) simp
  moreover have "show_nat (n div 10) = [digit_char (n div 10 div 10), digit_char (n div 10 mod 10)]"
    using assms by (intro show_nat_2) simp_all
  ultimately show ?thesis
    by (simp only: div_10_10 append.simps)
qed

lemma show_nat_4:
  assumes "1000 \<le> n" and "n < 10000"
  shows "show_nat n = [digit_char (n div 1000), digit_char (n div 100 mod 10),
                       digit_char (n div 10 mod 10), digit_char (n mod 10)]"
proof -
  have "show_nat n = show_nat (n div 10) @ [digit_char (n mod 10)]"
    using assms by (subst show_nat.simps) simp
  moreover have "show_nat (n div 10) = [digit_char (n div 10 div 100), digit_char (n div 10 div 10 mod 10),
      digit_char (n div 10 mod 10)]"
    using assms by (intro show_nat_3) simp_all
  ultimately show ?thesis
    by (simp only: div_10_10 div_10_100 append.simps)
qed

lemma show_nat_digits: "list_all is_digit (show_nat n)"
proof (induction n rule: show_nat.induct)
  case (1 n)
  show ?case
  proof (cases "n < 10")
    case True
    then show ?thesis by (simp add: show_nat_1)
  next
    case False
    then have "show_nat n = show_nat (n div 10) @ [digit_char (n mod 10)]"
      by (subst show_nat.simps) simp
    with "1.IH" [OF False] show ?thesis by simp
  qed
qed

lemma length_show_nat_pos: "0 < length (show_nat n)"
  by (subst show_nat.simps) simp

lemma length_show_nat_small: "n < 1000 \<Longrightarrow> length (show_nat n) \<le> 3"
  using show_nat_1 [of n] show_nat_2 [of n] show_nat_3 [of n]
  by (cases "n < 10"; cases "n < 100") auto

lemma length_show_nat_power: "10 ^ k \<le> n \<Longrightarrow> k < length (show_nat n)"
proof (induction k arbitrary: n)
  case 0
  show ?case by (rule length_show_nat_pos)
next
  case (Suc k)
  from Suc.prems have "10 * 10 ^ k \<le> n" by simp
  moreover have "(1::nat) \<le> 10 ^ k" by simp
  ultimately have ge: "10 \<le> n" and "10 ^ k \<le> n div 10"
    by linarith+
  then have "k < length (show_nat (n div 10))"
    by (intro Suc.IH)
  moreover have "show_nat n = show_nat (n div 10) @ [digit_char (n mod 10)]"
    using ge by (subst show_nat.simps) simp
  ultimately show ?case by simp
qed

lemma length_show_nat_large: "10000 \<le> n \<Longrightarrow> 5 \<le> length (show_nat n)"
  using length_show_nat_power [of 4 n] by simp

lemma replicate_3: "replicate 3 c = [c, c, c]"
  by (simp add: numeral_3_eq_3)

lemma replicate_2: "replicate 2 c = [c, c]"
  by (simp add: numeral_2_eq_2)

lemma addLeadingZeros_4:
  assumes "n < 10000"
  shows "addLeadingZeros n 4 = [digit_char (n div 1000), digit_char (n div 100 mod 10),
                                digit_char (n div 10 mod 10), digit_char (n mod 10)]"
proof -
  consider "n < 10" | "10 \<le> n \<and> n < 100" | "100 \<le> n \<and> n < 1000" | "1000 \<le> n \<and> n < 10000"
    using assms by linarith
  then show ?thesis
  proof cases
    case 1
    then show ?thesis
      by (simp add: addLeadingZeros_def show_nat_1 digit_char_0 replicate_3 replicate_2)
  next
    case 2
    then have "n div 10 < 10" by (simp add: div_less_iff_less_mult)
    with 2 show ?thesis
      by (simp add: addLeadingZeros_def show_nat_2 digit_char_0 replicate_3 replicate_2)
  next
    case 3
    then have "n div 100 < 10" by (simp add: div_less_iff_less_mult)
    with 3 show ?thesis
      by (simp add: addLeadingZeros_def show_nat_3 digit_char_0 replicate_3 replicate_2)
  next
    case 4
    then show ?thesis
      by (simp add: addLeadingZeros_def show_nat_4)
  qed
qed

lemma addLeadingZeros_2:
  assumes "n < 100"
  shows "addLeadingZeros n 2 = [digit_char (n div 10), digit_char (n mod 10)]"
proof (cases "n < 10")
  case True
  then show ?thesis
    by (simp add: addLeadingZeros_def show_nat_1 digit_char_0 replicate_3 replicate_2)
next
  case False
  with assms show ?thesis
    by (simp add: addLeadingZeros_def show_nat_2)
qed

lemma parseInt_2: "a < 10 \<Longrightarrow> b < 10 \<Longrightarrow> parseInt [digit_char a, digit_char b] = int (10 * a + b)"
  by (simp add: parseInt_def)

lemma parseInt_4:
  "a < 10 \<Longrightarrow> b < 10 \<Longrightarrow> c < 10 \<Longrightarrow> d < 10 \<Longrightarrow>
     parseInt [digit_char a, digit_char b, digit_char c, digit_char d]
       = int (1000 * a + 100 * b + 10 * c + d)"
  by (simp add: parseInt_def)

lemma digits_4:
  "1000 * (n div 1000) + 100 * (n div 100 mod 10) + 10 * (n div 10 mod 10) + n mod 10 = n" for n :: nat
proof -
  define a where "a = n div 10"
  define b where "b = a div 10"
  define c where "c = b div 10"
  have 1: "n = 10 * a + n mod 10" by (simp add: a_def)
  have 2: "a = 10 * b + a mod 10" by (simp add: b_def)
  have 3: "b = 10 * c + b mod 10" by (simp add: c_def)
  have 4: "n div 100 = b" by (simp add: a_def b_def div_mult2_eq)
  have 5: "n div 1000 = c" by (simp add: a_def b_def c_def div_mult2_eq)
  show ?thesis
    unfolding 4 5 a_def [symmetric] using 1 2 3 by linarith
qed

lemma digits_2: "10 * (n div 10) + n mod 10 = n" for n :: nat
  by simp

lemma parseISO_ymd:
  assumes "y3 < 10" "y2 < 10" "y1 < 10" "y0 < 10" "m1 < 10" "m0 < 10" "d1 < 10" "d0 < 10"
  shows "parseISO [digit_char y3, digit_char y2, digit_char y1, digit_char y0, CHR ''-'',
                   digit_char m1, digit_char m0, CHR ''-'', digit_char d1, digit_char d0]
         = (if validateDate (int (1000 * y3 + 100 * y2 + 10 * y1 + y0)) (int (10 * m1 + m0) - 1) (int (10 * d1 + d0))
            then Some (MakeDay (int (1000 * y3 + 100 * y2 + 10 * y1 + y0)) (int (10 * m1 + m0) - 1) (int (10 * d1 + d0)))
            else None)"
proof -
  have p4: "parseInt [digit_char y3, digit_char y2, digit_char y1, digit_char y0]
              = int (1000 * y3 + 100 * y2 + 10 * y1 + y0)"
    using assms by (intro parseInt_4)
  have pm: "parseInt [digit_char m1, digit_char m0] = int (10 * m1 + m0)"
    using assms by (intro parseInt_2)
  have pd: "parseInt [digit_char d1, digit_char d0] = int (10 * d1 + d0)"
    using assms by (intro parseInt_2)
  show ?thesis
    using assms
    by (simp add: parseISO_def parseDate_def p4 pm pd validateDayOfYearDate_def)
       (auto simp: validateDate_def max_def)
qed


lemma digit_bounds:
  fixes n :: nat
  assumes "n < 10000"
  shows "n div 1000 < 10" "n div 100 mod 10 < 10" "n div 10 mod 10 < 10" "n mod 10 < 10"
  using assms by (simp_all add: div_less_iff_less_mult)

lemma digit_bounds_2:
  fixes n :: nat
  assumes "n < 100"
  shows "n div 10 < 10" "n mod 10 < 10"
  using assms by (simp_all add: div_less_iff_less_mult)

lemma format_digits:
  assumes "0 < YearFromDay n" and "YearFromDay n < 10000"
  shows "format n DATE_FORMAT =
     [digit_char (nat (YearFromDay n) div 1000), digit_char (nat (YearFromDay n) div 100 mod 10),
      digit_char (nat (YearFromDay n) div 10 mod 10), digit_char (nat (YearFromDay n) mod 10),
      CHR ''-'',
      digit_char (nat (getMonth n + 1) div 10), digit_char (nat (getMonth n + 1) mod 10),
      CHR ''-'',
      digit_char (nat (getDate n) div 10), digit_char (nat (getDate n) mod 10)]"
proof -
  have y: "nat (YearFromDay n) < 10000"
    using assms by linarith
  have m: "nat (getMonth n + 1) < 100"
    using getMonth_range [of n] by linarith
  have "getDate n \<le> 31"
    using getDate_range [of n] by (simp add: daysInMonth_def split: if_splits)
  then have d: "nat (getDate n) < 100"
    by linarith
  show ?thesis
    using assms
    by (simp add: format_def DATE_FORMAT_def getFullYear_def Let_def
        addLeadingZeros_4 [OF y] addLeadingZeros_2 [OF m] addLeadingZeros_2 [OF d])
qed

lemma parseISO_format:
  assumes "DayFromYear 1 \<le> n" and "n < DayFromYear 10000"
  shows "parseISO (format n DATE_FORMAT) = Some n"
proof -
  have yr: "1 \<le> YearFromDay n \<and> YearFromDay n < 10000"
    using assms by (rule YearFromDay_range)
  then have y: "nat (YearFromDay n) < 10000"
    by linarith
  have mr: "0 \<le> getMonth n" "getMonth n \<le> 11"
    using getMonth_range [of n] by simp_all
  then have m: "nat (getMonth n + 1) < 100"
    by linarith
  have dr: "1 \<le> getDate n" "getDate n \<le> daysInMonth (YearFromDay n) (getMonth n)"
    using getDate_range [of n] by simp_all
  then have "getDate n \<le> 31"
    by (simp add: daysInMonth_def split: if_splits)
  then have d: "nat (getDate n) < 100"
    by linarith
  have ey: "int (1000 * (nat (YearFromDay n) div 1000) + 100 * (nat (YearFromDay n) div 100 mod 10)
              + 10 * (nat (YearFromDay n) div 10 mod 10) + nat (YearFromDay n) mod 10) = YearFromDay n"
    unfolding digits_4 using yr by simp
  have em: "int (10 * (nat (getMonth n + 1) div 10) + nat (getMonth n + 1) mod 10) - 1 = getMonth n"
    unfolding digits_2 using mr by simp
  have ed: "int (10 * (nat (getDate n) div 10) + nat (getDate n) mod 10) = getDate n"
    unfolding digits_2 using dr by simp
  have f: "format n DATE_FORMAT =
     [digit_char (nat (YearFromDay n) div 1000), digit_char (nat (YearFromDay n) div 100 mod 10),
      digit_char (nat (YearFromDay n) div 10 mod 10), digit_char (nat (YearFromDay n) mod 10),
      CHR ''-'',
      digit_char (nat (getMonth n + 1) div 10), digit_char (nat (getMonth n + 1) mod 10),
      CHR ''-'',
      digit_char (nat (getDate n) div 10), digit_char (nat (getDate n) mod 10)]"
    using yr by (intro format_digits) simp_all
  have v: "validateDate (YearFromDay n) (getMonth n) (getDate n)"
    using mr dr by (simp add: validateDate_def)
  show ?thesis
    unfolding f
    by (subst parseISO_ymd)
       (simp_all only: digit_bounds [OF y] digit_bounds_2 [OF m] digit_bounds_2 [OF d]
          ey em ed v MakeDay_fields if_True)
qed

lemma digit_char_1: "digit_char 1 = CHR ''1''" and digit_char_2: "digit_char 2 = CHR ''2''"
  and digit_char_3: "digit_char 3 = CHR ''3''"
  by (simp_all add: digit_char_def)

lemma parseISO_year_jan1:
  assumes "1000 \<le> yr" and "yr \<le> 9999"
  shows "parseISO (show_nat yr @ ''-01-01'') = Some (DayFromYear (int yr))"
proof -
  have y: "yr < 10000" using assms by simp
  have s: "show_nat yr @ ''-01-01'' =
      [digit_char (yr div 1000), digit_char (yr div 100 mod 10), digit_char (yr div 10 mod 10),
       digit_char (yr mod 10), CHR ''-'', digit_char 0, digit_char 1, CHR ''-'', digit_char 0, digit_char 1]"
    using assms by (simp add: show_nat_4 digit_char_def)
  show ?thesis
    unfolding s
    by (subst parseISO_ymd)
       (simp_all add: digit_bounds [OF y] digits_4 validateDate_def daysInMonth_def MakeDay_def
          month_start_simps)
qed

lemma parseISO_year_dec31:
  assumes "1000 \<le> yr" and "yr \<le> 9999"
  shows "parseISO (show_nat yr @ ''-12-31'') = Some (DayFromYear (int yr + 1) - 1)"
proof -
  have y: "yr < 10000" using assms by simp
  have s: "show_nat yr @ ''-12-31'' =
      [digit_char (yr div 1000), digit_char (yr div 100 mod 10), digit_char (yr div 10 mod 10),
       digit_char (yr mod 10), CHR ''-'', digit_char 1, digit_char 2, CHR ''-'', digit_char 3, digit_char 1]"
    using assms by (simp add: show_nat_4 digit_char_def)
  show ?thesis
    unfolding s
    by (subst parseISO_ymd)
       (simp_all add: digit_bounds [OF y] digits_4 validateDate_def daysInMonth_def MakeDay_def
          month_start_simps DayFromYear_step)
qed


lemma parseISO_year_invalid:
  assumes "\<not> (1000 \<le> yr \<and> yr \<le> 9999)"
  shows "parseISO (show_nat yr @ ''-01-01'') = None"
proof -
  consider "yr < 10" | "10 \<le> yr \<and> yr < 100" | "100 \<le> yr \<and> yr < 1000" | "10000 \<le> yr"
    using assms by linarith
  then show ?thesis
  proof cases
    case 1
    then show ?thesis by (simp add: show_nat_1 parseISO_def)
  next
    case 2
    then show ?thesis by (simp add: show_nat_2 parseISO_def)
  next
    case 3
    then show ?thesis by (simp add: show_nat_3 parseISO_def)
  next
    case 4
    define ds where "ds = show_nat yr"
    have len: "5 \<le> length ds"
      unfolding ds_def using 4 by (rule length_show_nat_large)
    have dig: "list_all is_digit ds"
      unfolding ds_def by (rule show_nat_digits)
    obtain c cs where cs: "drop 4 ds = c # cs"
      using len by (cases "drop 4 ds") auto
    have "c \<in> set ds"
      using cs by (metis in_set_dropD list.set_intros(1))
    with dig have "is_digit c"
      by (simp add: list_all_iff)
    then have c: "c \<noteq> CHR ''-''"
      by auto
    have t: "list_all is_digit (take 4 (ds @ ''-01-01''))"
      using len dig by (auto simp: list_all_iff dest: in_set_takeD)
    have d: "drop 4 (ds @ ''-01-01'') = c # (cs @ ''-01-01'')"
      using len cs by simp
    have pd: "parseDate (drop 4 (ds @ ''-01-01'')) y = None" for y
      unfolding d parseDate_def using c by simp
    have l4: "4 \<le> length (ds @ ''-01-01'')"
      by simp
    show ?thesis
      unfolding ds_def [symmetric] parseISO_def pd
      using t l4 by (simp only: simp_thms if_True)
  qed
qed

section \<open>The columns of the grid\<close>

lemma getDay_range: "0 \<le> getDay n \<and> getDay n \<le> 6"
  by (simp add: getDay_def)

lemma setDay_eq: "0 \<le> i \<Longrightarrow> setDay n i = sunday_of n + i"
  by (simp add: setDay_def sunday_of_def addDays_def Let_def)

lemma getDay_add7: "getDay (n + 7) = getDay n"
  by (simp add: getDay_def) presburger

lemma getDay_sunday_of: "getDay (sunday_of n) = 0"
  by (simp add: sunday_of_def getDay_def) presburger

lemma sunday_of_sunday: "getDay s = 0 \<Longrightarrow> sunday_of s = s"
  by (simp add: sunday_of_def)

lemma sunday_of_bounds: "sunday_of n \<le> n \<and> n \<le> sunday_of n + 6"
  using getDay_range [of n] by (simp add: sunday_of_def)

lemma first_row_sundays:
  "getDay s = 0 \<Longrightarrow> first_row s l data = map (cell data) (week_starts s l)"
proof (induction s l rule: week_starts.induct)
  case (1 s l)
  show ?case
  proof (cases "s \<le> l")
    case True
    have n: "setDay s 7 = s + 7"
      using "1.prems" by (simp add: setDay_eq sunday_of_sunday)
    have "getDay (s + 7) = 0"
      using "1.prems" by (simp add: getDay_add7)
    with "1.IH" [OF True] have "first_row (s + 7) l data = map (cell data) (week_starts (s + 7) l)"
      by simp
    with True n show ?thesis
      by (subst first_row.simps, subst week_starts.simps) (simp add: cell_def Let_def)
  next
    case False
    then show ?thesis
      by (subst first_row.simps, subst week_starts.simps) simp
  qed
qed

lemma first_row_eq:
  "first_row ws l data =
     (if ws \<le> l then cell data ws # map (cell data) (week_starts (sunday_of ws + 7) l) else [])"
proof (cases "ws \<le> l")
  case True
  have "getDay (sunday_of ws + 7) = 0"
    by (simp add: getDay_add7 getDay_sunday_of)
  then have "first_row (sunday_of ws + 7) l data = map (cell data) (week_starts (sunday_of ws + 7) l)"
    by (rule first_row_sundays)
  with True show ?thesis
    by (subst first_row.simps) (simp add: setDay_eq cell_def Let_def)
next
  case False
  then show ?thesis
    by (subst first_row.simps) simp
qed

lemma week_starts_props:
  "getDay s = 0 \<Longrightarrow> t \<in> set (week_starts s l) \<Longrightarrow> getDay t = 0 \<and> s \<le> t \<and> t \<le> l"
proof (induction s l rule: week_starts.induct)
  case (1 s l)
  show ?case
  proof (cases "s \<le> l")
    case True
    with "1.prems"(2) have "t = s \<or> t \<in> set (week_starts (s + 7) l)"
      by (subst (asm) week_starts.simps) simp
    then show ?thesis
    proof
      assume "t = s"
      with True "1.prems"(1) show ?thesis by simp
    next
      assume "t \<in> set (week_starts (s + 7) l)"
      moreover have "getDay (s + 7) = 0"
        using "1.prems"(1) by (simp add: getDay_add7)
      ultimately have "getDay t = 0 \<and> s + 7 \<le> t \<and> t \<le> l"
        using "1.IH" [OF True] by simp
      then show ?thesis by simp
    qed
  next
    case False
    with "1.prems"(2) show ?thesis
      by (subst (asm) week_starts.simps) simp
  qed
qed

lemma week_loop_from:
  assumes p: "parseISO s = Some r"
    and lo: "DayFromYear 1 \<le> sunday_of r"
    and hi: "sunday_of r + 6 < DayFromYear 10000"
    and j: "0 \<le> j"
  shows "week_loop s l data [j..6] = Inr (map (cell data) [sunday_of r + j..min (sunday_of r + 6) l])"
  using j
proof (induction "nat (7 - j)" arbitrary: j)
  case 0
  then have "[j..6] = []" and "[sunday_of r + j..min (sunday_of r + 6) l] = []"
    by simp_all
  then show ?case by simp
next
  case (Suc k)
  then have j6: "j \<le> 6" and k: "k = nat (7 - (j + 1))"
    by linarith+
  have u: "[j..6] = j # [j + 1..6]"
    using j6 by (simp add: upto_rec1)
  have rt: "parseISO (format (sunday_of r + j) DATE_FORMAT) = Some (sunday_of r + j)"
    using lo hi Suc.prems j6 by (intro parseISO_format) simp_all
  have ih: "week_loop s l data [j + 1..6]
      = Inr (map (cell data) [sunday_of r + (j + 1)..min (sunday_of r + 6) l])"
    using Suc.prems by (intro Suc.hyps(1) [OF k]) simp
  show ?case
  proof (cases "sunday_of r + j \<le> l")
    case True
    then have "[sunday_of r + j..min (sunday_of r + 6) l]
        = (sunday_of r + j) # [sunday_of r + (j + 1)..min (sunday_of r + 6) l]"
      using j6 by (simp add: upto_rec1 add.assoc)
    with True show ?thesis
      unfolding u
      by (simp add: p setDay_eq [OF Suc.prems] rt isAfter_def ih cell_def Let_def)
  next
    case False
    then have "[sunday_of r + j..min (sunday_of r + 6) l] = []"
      by simp
    with False show ?thesis
      unfolding u
      by (simp add: p setDay_eq [OF Suc.prems] rt isAfter_def)
  qed
qed

lemma upto_0_6: "[0, 1, 2, 3, 4, 5, 6] = [0..6::int]"
  by (simp add: upto_rec1)

lemma week_loop_cells:
  assumes "parseISO s = Some r"
    and "DayFromYear 1 \<le> sunday_of r"
    and "sunday_of r + 6 < DayFromYear 10000"
  shows "week_loop s l data [0, 1, 2, 3, 4, 5, 6] = Inr (week_cells data l (sunday_of r))"
  unfolding upto_0_6 week_cells_def
  using week_loop_from [OF assms, of 0 l data] by simp

lemma map_result_all:
  "(\<And>a. a \<in> set as \<Longrightarrow> f a = Inr (g a)) \<Longrightarrow> map_result f as = Inr (map g as)"
  by (induction as) simp_all

lemma map_result_map: "map_result f (map h as) = map_result (\<lambda>a. f (h a)) as"
  by (induction as) (simp_all split: sum.splits)

lemma week_starts_unfold:
  "week_starts s l = (if s \<le> l then s # week_starts (s + 7) l else [])"
  by (rule week_starts.simps)

lemma columns_eq:
  assumes le: "ws \<le> l"
    and lo: "DayFromYear 1 \<le> sunday_of ws"
    and hi: "l + 6 < DayFromYear 10000"
  shows "map_result (\<lambda>dateObj. week_loop (Block.date dateObj) l data [0, 1, 2, 3, 4, 5, 6])
           (first_row ws l data)
         = Inr (map (week_cells data l) (week_starts (sunday_of ws) l))"
proof -
  let ?rest = "week_starts (sunday_of ws + 7) l"
  have s7: "getDay (sunday_of ws + 7) = 0"
    by (simp add: getDay_add7 getDay_sunday_of)
  have b: "sunday_of ws \<le> ws" "ws \<le> sunday_of ws + 6"
    using sunday_of_bounds [of ws] by simp_all
  have fr: "first_row ws l data = map (cell data) (ws # ?rest)"
    using le by (simp add: first_row_eq)
  have ws: "week_starts (sunday_of ws) l = sunday_of ws # ?rest"
    using le b by (subst week_starts_unfold) simp
  have each: "week_loop (Block.date (cell data r)) l data [0, 1, 2, 3, 4, 5, 6]
               = Inr (week_cells data l (sunday_of r))"
    if "r \<in> set (ws # ?rest)" for r
  proof -
    have rb: "sunday_of ws \<le> sunday_of r \<and> r \<le> l"
    proof (cases "r = ws")
      case True
      with le show ?thesis by simp
    next
      case False
      with that have "r \<in> set ?rest" by simp
      from week_starts_props [OF s7 this] show ?thesis
        by (simp add: sunday_of_sunday)
    qed
    have r1: "DayFromYear 1 \<le> r" and r2: "r < DayFromYear 10000"
      using rb lo hi sunday_of_bounds [of r] by linarith+
    have "parseISO (Block.date (cell data r)) = Some r"
      using r1 r2 by (simp add: cell_def parseISO_format)
    moreover have "DayFromYear 1 \<le> sunday_of r"
      using rb lo by linarith
    moreover have "sunday_of r + 6 < DayFromYear 10000"
      using rb hi sunday_of_bounds [of r] by linarith
    ultimately show ?thesis
      by (rule week_loop_cells)
  qed
  have "map_result (\<lambda>dateObj. week_loop (Block.date dateObj) l data [0, 1, 2, 3, 4, 5, 6])
           (map (cell data) (ws # ?rest))
        = map_result (\<lambda>r. week_loop (Block.date (cell data r)) l data [0, 1, 2, 3, 4, 5, 6]) (ws # ?rest)"
    by (rule map_result_map)
  also have "\<dots> = Inr (map (\<lambda>r. week_cells data l (sunday_of r)) (ws # ?rest))"
    by (rule map_result_all) (rule each)
  also have "map (\<lambda>r. week_cells data l (sunday_of r)) (ws # ?rest)
        = map (week_cells data l) (sunday_of ws # ?rest)"
    using week_starts_props [OF s7] by (simp add: sunday_of_sunday)
  finally show ?thesis
    by (simp add: fr ws)
qed

lemma concat_week_cells:
  "concat (map (week_cells data l) (week_starts s l)) = map (cell data) [s..l]"
proof (induction s l rule: week_starts.induct)
  case (1 s l)
  show ?case
  proof (cases "s \<le> l")
    case True
    note ih = "1.IH" [OF True]
    show ?thesis
    proof (cases "s + 6 \<le> l")
      case le: True
      have "[s..l] = [s..s + 6] @ [s + 6 + 1..l]"
        using le by (intro upto_split2) simp_all
      then have "[s..l] = [s..s + 6] @ [s + 7..l]"
        by (simp add: add.assoc)
      moreover have "week_cells data l s = map (cell data) [s..s + 6]"
        using le by (simp add: week_cells_def)
      moreover have "week_starts s l = s # week_starts (s + 7) l"
        using True by (subst week_starts.simps) simp
      ultimately show ?thesis
        using ih by simp
    next
      case gt: False
      then have "week_starts (s + 7) l = []"
        by (subst week_starts.simps) simp
      then have "week_starts s l = [s]"
        using True by (subst week_starts.simps) simp
      moreover have "week_cells data l s = map (cell data) [s..l]"
        using gt by (simp add: week_cells_def)
      ultimately show ?thesis
        by simp
    qed
  next
    case False
    then show ?thesis
      by (subst week_starts.simps) simp
  qed
qed

lemma length_week_cells: "s \<le> l \<Longrightarrow> length (week_cells data l s) = nat (min 7 (l - s + 1))"
  by (simp add: week_cells_def min_def)

lemma week_starts_butlast:
  "t \<in> set (butlast (week_starts s l)) \<Longrightarrow> t + 7 \<le> l"
proof (induction s l rule: week_starts.induct)
  case (1 s l)
  show ?case
  proof (cases "s \<le> l")
    case True
    show ?thesis
    proof (cases "s + 7 \<le> l")
      case le: True
      then have ne: "week_starts (s + 7) l \<noteq> []"
        by (subst week_starts.simps) simp
      have "week_starts s l = s # week_starts (s + 7) l"
        using True by (subst week_starts.simps) simp
      with ne "1.prems" have "t = s \<or> t \<in> set (butlast (week_starts (s + 7) l))"
        by simp
      with le "1.IH" [OF True] show ?thesis
        by auto
    next
      case gt: False
      then have "week_starts (s + 7) l = []"
        by (subst week_starts.simps) simp
      then have "week_starts s l = [s]"
        using True by (subst week_starts.simps) simp
      with "1.prems" show ?thesis by simp
    qed
  next
    case False
    then have "week_starts s l = []"
      by (subst week_starts.simps) simp
    with "1.prems" show ?thesis by simp
  qed
qed

lemma week_start_eq: "(if getDay f \<noteq> 0 then addDays f (getDay f) else f) = f + getDay f"
  by (simp add: addDays_def)

lemma blocks_of_window:
  assumes "f + 6 \<le> l" and "DayFromYear 1 \<le> f - 6" and "l + 6 < DayFromYear 10000"
  shows "map_result (\<lambda>dateObj. week_loop (Block.date dateObj) l data [0, 1, 2, 3, 4, 5, 6])
           (first_row (f + getDay f) l data) = Inr (grid f l data)"
proof -
  have g: "0 \<le> getDay f" "getDay f \<le> 6"
    using getDay_range [of f] by simp_all
  have "f + getDay f \<le> l"
    using assms(1) g by linarith
  moreover have "DayFromYear 1 \<le> sunday_of (f + getDay f)"
    using assms(2) g sunday_of_bounds [of "f + getDay f"] by linarith
  ultimately show ?thesis
    unfolding grid_def using assms(3) by (rule columns_eq)
qed

lemma DayFromYear_mono_nat: "a \<le> b \<Longrightarrow> DayFromYear (int a) \<le> DayFromYear (int b)"
  by (rule DayFromYear_mono) simp

lemma calendar_window:
  assumes "1000 \<le> yr" and "yr \<le> 9998"
  shows "DayFromYear (int yr) + 6 \<le> DayFromYear (int yr + 1) - 1"
    and "DayFromYear 1 \<le> DayFromYear (int yr) - 6"
    and "DayFromYear (int yr + 1) - 1 + 6 < DayFromYear 10000"
proof -
  show "DayFromYear (int yr) + 6 \<le> DayFromYear (int yr + 1) - 1"
    by (simp add: DayFromYear_step)
  have "DayFromYear 2 \<le> DayFromYear (int yr)"
    using assms by (intro DayFromYear_mono) simp
  moreover have "DayFromYear 1 + 365 \<le> DayFromYear 2"
    using DayFromYear_step_bounds [of 1] by simp
  ultimately show "DayFromYear 1 \<le> DayFromYear (int yr) - 6"
    by linarith
  have "DayFromYear (int yr + 1) \<le> DayFromYear 9999"
    using assms by (intro DayFromYear_mono) simp
  moreover have "DayFromYear 9999 + 365 \<le> DayFromYear 10000"
    using DayFromYear_step_bounds [of 9999] by simp
  ultimately show "DayFromYear (int yr + 1) - 1 + 6 < DayFromYear 10000"
    by linarith
qed

lemma getBlocksForYear_calendar:
  assumes "1000 \<le> yr" and "yr \<le> 9998"
  shows "getBlocksForYear now yr data False
         = Inr (grid (DayFromYear (int yr)) (DayFromYear (int yr + 1) - 1) data)"
proof -
  have y: "yr \<le> 9999" using assms by simp
  show ?thesis
    unfolding getBlocksForYear_def Let_def week_start_eq
    by (simp only: if_False parseISO_year_jan1 [OF assms(1) y] parseISO_year_dec31 [OF assms(1) y]
        option.case blocks_of_window [OF calendar_window [OF assms]])
qed

lemma month_start_nonneg: "0 \<le> month_start m b"
  by (simp add: month_start_def)

lemma month_start_leap_diff: "month_start m b \<le> month_start m b' + (if b then 1 else 0)"
  by (simp add: month_start_def)

lemma daysInMonth_pos: "1 \<le> daysInMonth y m"
  by (simp add: daysInMonth_def)

lemma subYears_bounds:
  "DayFromYear (YearFromDay now - 1) \<le> subYears now 1 \<and> subYears now 1 + 365 \<le> now"
proof -
  define y where "y = YearFromDay now"
  define m where "m = getMonth now"
  define d where "d = getDate now"
  have n: "now = DayFromYear y + month_start m (InLeapYear y) + d - 1"
    using MakeDay_fields [of now] by (simp add: MakeDay_def y_def m_def d_def)
  have s: "subYears now 1 = DayFromYear (y - 1) + month_start m (InLeapYear (y - 1))
             + min d (daysInMonth (y - 1) m) - 1"
    by (simp add: subYears_def getFullYear_def MakeDay_def y_def m_def d_def Let_def)
  have d1: "1 \<le> d"
    using getDate_range [of now] by (simp add: d_def)
  have st: "DayFromYear y = DayFromYear (y - 1) + (if InLeapYear (y - 1) then 366 else 365)"
    using DayFromYear_step [of "y - 1"] by simp
  have a: "1 \<le> min d (daysInMonth (y - 1) m)" "min d (daysInMonth (y - 1) m) \<le> d"
    using d1 daysInMonth_pos [of "y - 1" m] by simp_all
  have b: "0 \<le> month_start m (InLeapYear (y - 1))"
    by (rule month_start_nonneg)
  have c: "month_start m (InLeapYear (y - 1))
             \<le> month_start m (InLeapYear y) + (if InLeapYear (y - 1) then 1 else 0)"
    by (rule month_start_leap_diff)
  have "DayFromYear (y - 1) \<le> subYears now 1"
    unfolding s using a b by linarith
  moreover have "subYears now 1 + 365 \<le> now"
    unfolding s using n st a c by (simp split: if_splits)
  ultimately show ?thesis
    by (simp add: y_def)
qed



lemma week_loop_total:
  "parseISO s = Some r \<Longrightarrow> \<exists>w. week_loop s l data js = Inr w"
  by (induction js) (auto simp: Let_def split: sum.splits)

lemma week_loop_head_cons:
  assumes p: "parseISO s = Some r"
    and lo: "DayFromYear 1 \<le> sunday_of r"
    and hi: "sunday_of r < DayFromYear 10000"
    and le: "sunday_of r \<le> l"
  shows "\<exists>w. week_loop s l data (0 # js) = Inr (cell data (sunday_of r) # w)"
proof -
  obtain w where w: "week_loop s l data js = Inr w"
    using week_loop_total [OF p] by blast
  have rt: "parseISO (format (sunday_of r) DATE_FORMAT) = Some (sunday_of r)"
    using lo hi by (rule parseISO_format)
  have "week_loop s l data (0 # js) = Inr (cell data (sunday_of r) # w)"
    using le by (simp add: p setDay_eq rt isAfter_def w cell_def Let_def)
  then show ?thesis by blast
qed

lemma week_loop_head:
  assumes "parseISO s = Some r"
    and "DayFromYear 1 \<le> sunday_of r"
    and "sunday_of r < DayFromYear 10000"
    and "sunday_of r \<le> l"
  shows "\<exists>w. week_loop s l data [0, 1, 2, 3, 4, 5, 6] = Inr (cell data (sunday_of r) # w)"
  using assms by (rule week_loop_head_cons)

lemma map_result_total:
  "(\<And>a. a \<in> set as \<Longrightarrow> \<exists>b. f a = Inr b \<and> P b) \<Longrightarrow>
     \<exists>bs. map_result f as = Inr bs \<and> length bs = length as \<and> (\<forall>b \<in> set bs. P b)"
proof (induction as)
  case Nil
  show ?case by simp
next
  case (Cons a as)
  obtain b where b: "f a = Inr b" "P b"
    using Cons.prems [of a] by auto
  obtain bs where bs: "map_result f as = Inr bs" "length bs = length as" "\<forall>b \<in> set bs. P b"
    using Cons.IH Cons.prems by auto
  show ?case
    using b bs by simp
qed

lemma blocks_of_window_total:
  assumes lo: "DayFromYear 1 \<le> f - 6" and hi: "l < DayFromYear 10000"
  shows "\<exists>bs. map_result (\<lambda>dateObj. week_loop (Block.date dateObj) l data [0, 1, 2, 3, 4, 5, 6])
                 (first_row (f + getDay f) l data) = Inr bs \<and> (\<forall>week \<in> set bs. labelled week)"
proof -
  define ws where "ws = f + getDay f"
  let ?rest = "week_starts (sunday_of ws + 7) l"
  have g: "0 \<le> getDay f" "getDay f \<le> 6"
    using getDay_range [of f] by simp_all
  have sw: "DayFromYear 1 \<le> sunday_of ws"
    using lo g sunday_of_bounds [of ws] by (simp add: ws_def)
  have s7: "getDay (sunday_of ws + 7) = 0"
    by (simp add: getDay_add7 getDay_sunday_of)
  have each: "\<exists>b. week_loop (Block.date a) l data [0, 1, 2, 3, 4, 5, 6] = Inr b \<and> labelled b"
    if a: "a \<in> set (first_row ws l data)" for a
  proof -
    from a have le: "ws \<le> l" and "a \<in> set (map (cell data) (ws # ?rest))"
      by (simp_all add: first_row_eq split: if_splits)
    then obtain r where r: "a = cell data r" "r \<in> set (ws # ?rest)"
      by auto
    have rb: "sunday_of ws \<le> sunday_of r \<and> r \<le> l"
    proof (cases "r = ws")
      case True
      with le show ?thesis by simp
    next
      case False
      with r have "r \<in> set ?rest" by simp
      from week_starts_props [OF s7 this] show ?thesis
        by (simp add: sunday_of_sunday)
    qed
    have sb: "sunday_of r \<le> r"
      using sunday_of_bounds [of r] by simp
    have p: "parseISO (Block.date a) = Some r"
      unfolding r(1) using rb sw sb hi by (simp add: cell_def parseISO_format)
    have "\<exists>w. week_loop (Block.date a) l data [0, 1, 2, 3, 4, 5, 6] = Inr (cell data (sunday_of r) # w)"
      using p rb sw sb hi by (intro week_loop_head) simp_all
    moreover have "parseISO (Block.date (cell data (sunday_of r))) \<noteq> None"
      using rb sw sb hi by (simp add: cell_def parseISO_format)
    ultimately show ?thesis
      by (auto simp: labelled_def)
  qed
  show ?thesis
    unfolding ws_def [symmetric]
    using map_result_total
      [where f = "\<lambda>dateObj. week_loop (Block.date dateObj) l data [0, 1, 2, 3, 4, 5, 6]"
         and as = "first_row ws l data" and P = labelled]
      each
    by blast
qed

lemma labels_loop_total:
  "(\<And>week. week \<in> set weeks \<Longrightarrow> labelled week) \<Longrightarrow> \<exists>ls. labels_loop weeks i prev = Inr ls"
proof (induction weeks arbitrary: i prev)
  case Nil
  show ?case by simp
next
  case (Cons week weeks)
  have "labelled week"
    using Cons.prems by simp
  then obtain b bs r where w: "week = b # bs" "parseISO (Block.date b) = Some r"
    by (auto simp: labelled_def split: list.splits)
  have ih: "\<exists>ls. labels_loop weeks i' prev' = Inr ls" for i' prev'
    using Cons.prems by (intro Cons.IH) simp
  obtain l1 where l1: "labels_loop weeks (i + 1) (getMonth r + 1) = Inr l1"
    using ih by blast
  obtain l2 where l2: "labels_loop weeks (i + 1) prev = Inr l2"
    using ih by blast
  show ?case
    using l1 l2 by (simp add: w Let_def)
qed

lemma getMonthLabels_total:
  "(\<And>week. week \<in> set blks \<Longrightarrow> labelled week) \<Longrightarrow> \<exists>ls. getMonthLabels blks fy = Inr ls"
  unfolding getMonthLabels_def Let_def
  by (rule labels_loop_total) (auto dest: in_set_takeD)

section \<open>The anchor of the first week\<close>

text \<open>
  The first week column is the week of \<open>f + getDay f\<close>, where \<open>f\<close> is the window start: the
  week of \<open>f\<close> itself when \<open>f\<close> is a Sunday, Monday, Tuesday or Wednesday, and the week after
  it otherwise.
\<close>

lemma getDay_anchor: "getDay (f + getDay f) = (2 * getDay f) mod 7"
proof -
  have "(f + (f + 4) mod 7 + 4) mod 7 = ((f + 4) mod 7 + (f + 4)) mod 7"
    by (simp add: algebra_simps)
  also have "\<dots> = ((f + 4) mod 7 + (f + 4) mod 7) mod 7"
    by (simp only: mod_add_right_eq)
  finally show ?thesis
    by (simp add: getDay_def)
qed

lemma anchor_sunday:
  "sunday_of (f + getDay f) \<le> f + (7 - getDay f) mod 7 \<and>
   (4 \<le> getDay f \<longrightarrow> f < sunday_of (f + getDay f)) \<and>
   (getDay f = 0 \<longrightarrow> sunday_of (f + getDay f) = f)"
proof -
  have "getDay f \<in> {0, 1, 2, 3, 4, 5, 6}"
    using getDay_range [of f] by simp presburger
  then show ?thesis
    unfolding sunday_of_def getDay_anchor
    by (elim insertE emptyE) simp_all
qed

lemma MakeDay_jan1: "MakeDay y 0 1 = DayFromYear y"
  by (simp add: MakeDay_def month_start_simps)

lemma MakeDay_dec31: "MakeDay y 11 31 = DayFromYear (y + 1) - 1"
  by (simp add: MakeDay_def month_start_simps DayFromYear_step)

lemma grid_columns:
  assumes "col \<in> set (grid f l data)"
  shows "\<exists>s. getDay s = 0 \<and> sunday_of (f + getDay f) \<le> s \<and> s \<le> l \<and>
             col = map (cell data) [s..min (s + 6) l]"
proof -
  from assms obtain s where s: "s \<in> set (week_starts (sunday_of (f + getDay f)) l)"
      and c: "col = week_cells data l s"
    by (auto simp: grid_def)
  from week_starts_props [OF getDay_sunday_of s] c show ?thesis
    by (auto simp: week_cells_def)
qed

lemma grid_butlast:
  assumes "col \<in> set (butlast (grid f l data))"
  shows "length col = 7"
proof -
  from assms obtain s where s: "s \<in> set (butlast (week_starts (sunday_of (f + getDay f)) l))"
      and c: "col = week_cells data l s"
    by (auto simp: grid_def map_butlast [symmetric])
  from week_starts_butlast [OF s] c show ?thesis
    by (simp add: week_cells_def)
qed

lemma grid_concat: "concat (grid f l data) = map (cell data) [sunday_of (f + getDay f)..l]"
  by (simp add: grid_def concat_week_cells)


section \<open>Dates given by their fields\<close>

text \<open>
  The day built from a valid year, month and day of the month has these fields again, which
  gives its printed form without a search for the year.
\<close>

lemma day_of_year_valid:
  assumes "0 \<le> m" and "m \<le> 11" and "1 \<le> d" and "d \<le> daysInMonth_of m l"
  shows "month_start m l + d - 1 < (if l then 366 else 365) \<and>
         month_of_day (month_start m l + d - 1) l = m"
proof -
  from assms(1,2) have "m \<in> {0, 1, 2, 3, 4, 5, 6, 7, 8, 9, 10, 11}"
    by simp presburger
  then show ?thesis
    using assms(3,4)
    by (elim insertE emptyE)
       (auto simp: month_start_simps daysInMonth_of_def month_of_day_def split: if_splits)
qed

lemma fields_of_MakeDay:
  assumes "validateDate y m d"
  shows "YearFromDay (MakeDay y m d) = y" and "getMonth (MakeDay y m d) = m"
    and "getDate (MakeDay y m d) = d"
proof -
  from assms have v: "0 \<le> m" "m \<le> 11" "1 \<le> d" "d \<le> daysInMonth_of m (InLeapYear y)"
    by (simp_all add: validateDate_def daysInMonth_eq)
  note k = day_of_year_valid [OF v]
  have "0 \<le> month_start m (InLeapYear y)"
    by (rule month_start_nonneg)
  with v(3) k show y: "YearFromDay (MakeDay y m d) = y"
    by (intro YearFromDay_unique) (simp_all add: MakeDay_def DayFromYear_step split: if_splits)
  have w: "DayWithinYear (MakeDay y m d) = month_start m (InLeapYear y) + d - 1"
    by (simp add: DayWithinYear_def y) (simp add: MakeDay_def)
  show m: "getMonth (MakeDay y m d) = m"
    using k by (simp add: getMonth_month_of_day y w)
  show "getDate (MakeDay y m d) = d"
    by (simp add: getDate_def m y w)
qed

lemma format_MakeDay:
  assumes "validateDate y m d" and "0 < y"
  shows "format (MakeDay y m d) DATE_FORMAT =
           addLeadingZeros (nat y) 4 @ ''-'' @ addLeadingZeros (nat (m + 1)) 2 @ ''-''
           @ addLeadingZeros (nat d) 2"
  using assms(2) by (simp add: format_def DATE_FORMAT_def getFullYear_def fields_of_MakeDay [OF assms(1)])

lemma format_MMM_MakeDay:
  assumes "validateDate y m d"
  shows "format (MakeDay y m d) ''MMM'' = month_abbr m"
  by (simp add: format_def fields_of_MakeDay [OF assms])

lemmas day_eval = MakeDay_def DayFromYear_def month_start_simps InLeapYear_def

lemmas pad_eval = addLeadingZeros_def show_nat.simps digit_char_def Let_def

lemmas valid_eval = validateDate_def daysInMonth_def InLeapYear_def

lemma format_jan1_2015: "format 16436 DATE_FORMAT = ''2015-01-01''"
proof -
  have v: "validateDate 2015 0 1"
    by (simp add: valid_eval)
  have "format (MakeDay 2015 0 1) DATE_FORMAT = ''2015-01-01''"
    using format_MakeDay [OF v] by (simp add: pad_eval)
  then show ?thesis
    by (simp add: day_eval)
qed


section \<open>The merger\<close>

text \<open>
  The two components of the merged series: the records depend on neither the year keys nor
  the time zone; the totals grow by the number of touched records with the year key of the
  summary.
\<close>

lemma build_table_fold:
  "fold (\<lambda>c t. t(count c \<mapsto> (color c, intensity c))) cs t0 k = None
     \<longleftrightarrow> t0 k = None \<and> k \<notin> count ` set cs"
  by (induction cs arbitrary: t0) auto

lemma build_table_None: "build_table cs k = None \<longleftrightarrow> k \<notin> count ` set cs"
  by (simp add: build_table_def build_table_fold)

lemma fst_merge_one_indep: "fst (merge_one gl t tz c ys) = fst (merge_one gl t tz' c ys')"
  by (simp add: merge_one_def Let_def split: option.splits prod.splits)

lemma fst_second_pass:
  "fst (second_pass gl t tz cs ys) = map (\<lambda>c. fst (merge_one gl t tz c Map.empty)) cs"
proof (induction cs arbitrary: ys)
  case Nil
  show ?case by simp
next
  case (Cons c cs)
  show ?case
    using Cons.IH fst_merge_one_indep [of gl t tz c ys tz Map.empty]
    by (simp add: split_beta Let_def)
qed

lemma snd_merge_one:
  "snd (merge_one gl t tz c ys) k =
     (if gl (Contrib.date c) \<noteq> None \<and> yearKey tz (Contrib.date c) = k
      then Some ((case ys k of Some m \<Rightarrow> m | None \<Rightarrow> 0) + 1) else ys k)"
  by (auto simp: merge_one_def Let_def split: option.splits prod.splits)

lemma snd_second_pass:
  "snd (second_pass gl t tz cs ys) k =
     (let n = int (length (filter (\<lambda>c. gl (Contrib.date c) \<noteq> None \<and> yearKey tz (Contrib.date c) = k) cs))
      in if n = 0 then ys k else Some ((case ys k of Some m \<Rightarrow> m | None \<Rightarrow> 0) + n))"
proof (induction cs arbitrary: ys)
  case Nil
  show ?case by simp
next
  case (Cons c cs)
  show ?case
    by (simp add: split_beta Let_def Cons.IH snd_merge_one split: option.splits)
qed

lemma contributions_combine:
  "contributions (combineContributions tz gl gh) =
     map (\<lambda>c. fst (merge_one gl (build_table (contributions gh)) tz c Map.empty)) (contributions gh)"
  using fst_second_pass [of gl "build_table (contributions gh)" tz "contributions gh" Map.empty]
  by (simp add: combineContributions_def Let_def split_beta)

lemma years_combine:
  "ApiResult.years (combineContributions tz gl gh) =
     map (\<lambda>e. e\<lparr>total := total e + int (length (filter
            (\<lambda>c. gl (Contrib.date c) \<noteq> None \<and> yearKey tz (Contrib.date c) = YearEntry.year e)
            (contributions gh)))\<rparr>)
       (ApiResult.years gh)"
  by (simp add: combineContributions_def Let_def split_beta snd_second_pass)

lemma Date_parse_examples:
  "Date_parse ''2023-06-01'' = Some (MakeDay 2023 5 1)"
  "Date_parse ''2023-06-02'' = Some (MakeDay 2023 5 2)"
  "Date_parse ''2023-01-01'' = Some (MakeDay 2023 0 1)"
  by (simp_all add: Date_parse_def is_digit_def parseInt_def valid_eval)

lemma show_int_examples: "show_int 2023 = ''2023''" "show_int 2022 = ''2022''"
  by (simp_all add: show_int_def show_nat.simps digit_char_def)

lemma yearKey_examples:
  "yearKey 0 ''2023-06-01'' = ''2023''" "yearKey 0 ''2023-06-02'' = ''2023''"
  "yearKey 0 ''2023-01-01'' = ''2023''" "yearKey (- 300) ''2023-01-01'' = ''2022''"
proof -
  have v: "validateDate 2023 5 1" "validateDate 2023 5 2" "validateDate 2023 0 1" "validateDate 2022 11 31"
    by (simp_all add: valid_eval)
  have w: "MakeDay 2023 0 1 + - 1 = MakeDay 2022 11 31"
    by (simp add: day_eval)
  have d: "(- 300) div 1440 = (- 1 :: int)"
    by simp
  show "yearKey 0 ''2023-06-01'' = ''2023''" "yearKey 0 ''2023-06-02'' = ''2023''"
    "yearKey 0 ''2023-01-01'' = ''2023''"
    by (simp_all add: yearKey_def Date_parse_examples fields_of_MakeDay v show_int_examples)
  show "yearKey (- 300) ''2023-01-01'' = ''2022''"
    by (simp only: yearKey_def Date_parse_examples option.case d w fields_of_MakeDay v show_int_examples)
qed

lemma example_merged:
  "combineContributions 0 example_secondary example_primary =
     \<lparr>ApiResult.years = [\<lparr>YearEntry.year = ''2023'', total = 9, range_y = (''2023-01-01'', ''2023-12-31'')\<rparr>],
      contributions = [\<lparr>Contrib.date = ''2023-06-01'', count = 7, color = ''red'', intensity = Some 2\<rparr>,
                       \<lparr>Contrib.date = ''2023-06-02'', count = 3, color = ''#c6e48b'', intensity = Some 1\<rparr>]\<rparr>"
  by (simp add: example_primary_def example_secondary_def combineContributions_def build_table_def
      merge_one_def Let_def yearKey_examples)

lemma year_totals_distinct:
  assumes "distinct (map Contrib.date (contributions gh))"
  shows "length (filter (\<lambda>c. gl (Contrib.date c) \<noteq> None \<and> yearKey tz (Contrib.date c) = k) (contributions gh))
           = card {d \<in> Contrib.date ` set (contributions gh). gl d \<noteq> None \<and> yearKey tz d = k}"
proof -
  let ?P = "\<lambda>d. gl d \<noteq> None \<and> yearKey tz d = k"
  have "length (filter (\<lambda>c. ?P (Contrib.date c)) (contributions gh))
        = length (filter ?P (map Contrib.date (contributions gh)))"
    by (simp add: filter_map comp_def)
  also have "\<dots> = card (set (filter ?P (map Contrib.date (contributions gh))))"
  proof -
    have "distinct (filter ?P (map Contrib.date (contributions gh)))"
      using assms by (rule distinct_filter)
    then show ?thesis
      by (rule distinct_card [symmetric])
  qed
  also have "set (filter ?P (map Contrib.date (contributions gh)))
        = {d \<in> Contrib.date ` set (contributions gh). gl d \<noteq> None \<and> yearKey tz d = k}"
    by auto
  finally show ?thesis .
qed

section \<open>The grid of a window and of concrete years\<close>

lemma grid_hd:
  assumes "f + 6 \<le> l"
  shows "hd (grid f l data) = map (cell data) [sunday_of (f + getDay f)..min (sunday_of (f + getDay f) + 6) l]"
proof -
  have "sunday_of (f + getDay f) \<le> l"
    using assms sunday_of_bounds [of "f + getDay f"] getDay_range [of f] by linarith
  then show ?thesis
    by (subst grid_def, subst week_starts.simps) (simp add: week_cells_def)
qed

lemma upto_7: "[s..s + 6] = [s, s + 1, s + 2, s + 3, s + 4, s + 5, s + 6]" for s :: int
  by (simp add: upto_rec1)

lemma map_date_cell: "map Block.date (map (cell data) ns) = map (\<lambda>n. format n DATE_FORMAT) ns"
  by (simp add: cell_def)

lemma blocks_2015:
  "getBlocksForYear now 2015 data False = Inr (grid 16436 16800 data)"
  using getBlocksForYear_calendar [of 2015 now data]
  by (simp add: DayFromYear_def)


lemma anchor_2015: "sunday_of (16436 + getDay 16436) = 16439"
  by (simp add: sunday_of_def getDay_def)

lemma jan1_2015: "MakeDay 2015 0 1 = 16436"
  by (simp add: MakeDay_jan1 DayFromYear_def)

lemma range_bounds: "DayFromYear 1 = - 719162" "DayFromYear 10000 = 2932897"
  by (simp_all add: DayFromYear_def)

lemma date_not_in_cells:
  assumes "\<And>n. lo \<le> n \<Longrightarrow> n \<le> hi \<Longrightarrow> format n DATE_FORMAT \<noteq> s"
  shows "s \<notin> Block.date ` set (map (cell data) [lo..hi])"
proof
  assume "s \<in> Block.date ` set (map (cell data) [lo..hi])"
  then obtain n where "lo \<le> n" "n \<le> hi" "s = format n DATE_FORMAT"
    by (auto simp: cell_def)
  with assms [of n] show False by simp
qed

lemma format_inj:
  assumes "DayFromYear 1 \<le> n" "n < DayFromYear 10000" "DayFromYear 1 \<le> k" "k < DayFromYear 10000"
    and "format n DATE_FORMAT = format k DATE_FORMAT"
  shows "n = k"
proof -
  have "Some n = parseISO (format n DATE_FORMAT)"
    using assms(1,2) by (rule parseISO_format [symmetric])
  also have "\<dots> = parseISO (format k DATE_FORMAT)"
    by (simp only: assms(5))
  also have "\<dots> = Some k"
    using assms(3,4) by (rule parseISO_format)
  finally show ?thesis
    by simp
qed

lemma grid_labelled:
  assumes "DayFromYear 1 \<le> f - 6" and "l < DayFromYear 10000" and "week \<in> set (grid f l data)"
  shows "labelled week"
proof -
  from grid_columns [OF assms(3)] obtain s where s: "getDay s = 0" "sunday_of (f + getDay f) \<le> s"
      "s \<le> l" "week = map (cell data) [s..min (s + 6) l]"
    by blast
  have "f - 6 \<le> sunday_of (f + getDay f)"
    using sunday_of_bounds [of "f + getDay f"] getDay_range [of f] by linarith
  with s assms(1,2) have "parseISO (format s DATE_FORMAT) = Some s"
    by (intro parseISO_format) linarith+
  moreover have "week = cell data s # map (cell data) [s + 1..min (s + 6) l]"
    using s(3,4) by (simp add: upto_rec1)
  ultimately show ?thesis
    by (simp add: labelled_def cell_def)
qed

lemma labels_loop_first:
  assumes "parseISO (Block.date b) = Some r" and "getMonth r \<noteq> 11"
    and "\<And>week. week \<in> set rest \<Longrightarrow> labelled week"
  shows "\<exists>ls. labels_loop ((b # bs) # rest) 0 0 = Inr (\<lparr>x = 0, label = format r ''MMM''\<rparr> # ls)"
proof -
  obtain ls where "labels_loop rest (0 + 1) (getMonth r + 1) = Inr ls"
    using labels_loop_total [OF assms(3)] by blast
  moreover have "getMonth r + 1 \<noteq> 0"
    using getMonth_range [of r] by simp
  ultimately show ?thesis
    using assms(1,2) by (simp add: Let_def)
qed

lemma blocks_2017:
  "getBlocksForYear now 2017 data False = Inr (grid 17167 17531 data)"
  using getBlocksForYear_calendar [of 2017 now data]
  by (simp add: DayFromYear_def)

lemma anchor_2017: "sunday_of (17167 + getDay 17167) = 17167"
  by (simp add: sunday_of_def getDay_def)

lemma jan1_2017: "17167 = MakeDay 2017 0 1"
  by (simp add: day_eval)

lemma valid_jan1_2017: "validateDate 2017 0 1"
  by (simp add: valid_eval)

lemma blocks_2019:
  "getBlocksForYear now 2019 data False = Inr (grid 17897 18261 data)"
  using getBlocksForYear_calendar [of 2019 now data]
  by (simp add: DayFromYear_def)

lemma anchor_2019: "sunday_of (17897 + getDay 17897) = 17895"
  by (simp add: sunday_of_def getDay_def)

lemma dates_2019:
  "map (\<lambda>n. format n DATE_FORMAT) [17895, 17896, 17897, 17898, 17899, 17900, 17901, 17902] =
     [''2018-12-30'', ''2018-12-31'', ''2019-01-01'', ''2019-01-02'', ''2019-01-03'', ''2019-01-04'',
      ''2019-01-05'', ''2019-01-06'']"
proof -
  have v: "validateDate 2018 11 30" "validateDate 2018 11 31" "validateDate 2019 0 1"
    "validateDate 2019 0 2" "validateDate 2019 0 3" "validateDate 2019 0 4" "validateDate 2019 0 5"
    "validateDate 2019 0 6"
    by (simp_all add: valid_eval)
  have "map (\<lambda>n. format n DATE_FORMAT)
          [MakeDay 2018 11 30, MakeDay 2018 11 31, MakeDay 2019 0 1, MakeDay 2019 0 2, MakeDay 2019 0 3,
           MakeDay 2019 0 4, MakeDay 2019 0 5, MakeDay 2019 0 6] =
     [''2018-12-30'', ''2018-12-31'', ''2019-01-01'', ''2019-01-02'', ''2019-01-03'', ''2019-01-04'',
      ''2019-01-05'', ''2019-01-06'']"
    by (simp add: format_MakeDay v pad_eval)
  then show ?thesis
    by (simp add: day_eval)
qed

section \<open>The orchestrator\<close>

lemma blocks_total:
  assumes "DayFromYear 1000 \<le> now" and "now < DayFromYear 10000"
  shows "\<exists>bs. getBlocksForYear now yr data fy = Inr bs \<and> (\<forall>week \<in> set bs. labelled week)"
proof (cases fy)
  case True
  have y: "1000 \<le> YearFromDay now"
    using YearFromDay_range [of 1000 now "YearFromDay now + 1"] YearFromDay_spec [of now] assms(1)
    by simp
  then have "DayFromYear 999 \<le> DayFromYear (YearFromDay now - 1)"
    by (intro DayFromYear_mono) simp
  moreover have "DayFromYear 1 \<le> DayFromYear 998"
    by (intro DayFromYear_mono) simp
  moreover have "DayFromYear 998 + 365 \<le> DayFromYear 999"
    using DayFromYear_step_bounds [of 998] by simp
  ultimately have "DayFromYear 1 \<le> subYears now 1 - 6"
    using subYears_bounds [of now] by linarith
  from blocks_of_window_total [OF this assms(2), of data] True show ?thesis
    unfolding getBlocksForYear_def Let_def week_start_eq
    by (simp only: if_True option.case)
next
  case False
  show ?thesis
  proof (cases "1000 \<le> yr \<and> yr \<le> 9999")
    case y: True
    then have y1: "1000 \<le> yr" and y2: "yr \<le> 9999"
      by simp_all
    have "DayFromYear 2 \<le> DayFromYear (int yr)"
      using y1 by (intro DayFromYear_mono) simp
    moreover have "DayFromYear 1 + 365 \<le> DayFromYear 2"
      using DayFromYear_step_bounds [of 1] by simp
    ultimately have lo: "DayFromYear 1 \<le> DayFromYear (int yr) - 6"
      by linarith
    have "DayFromYear (int yr + 1) \<le> DayFromYear 10000"
      using y2 by (intro DayFromYear_mono) simp
    then have hi: "DayFromYear (int yr + 1) - 1 < DayFromYear 10000"
      by simp
    from blocks_of_window_total [OF lo hi, of data] False show ?thesis
      unfolding getBlocksForYear_def Let_def week_start_eq
      by (simp only: if_False parseISO_year_jan1 [OF y1 y2] parseISO_year_dec31 [OF y1 y2] option.case)
  next
    case n: False
    then have "parseISO (show_nat yr @ ''-01-01'') = None"
      by (rule parseISO_year_invalid)
    with False show ?thesis
      by (simp add: getBlocksForYear_def)
  qed
qed

lemma getGraphDataForYear_total:
  assumes "DayFromYear 1000 \<le> now" and "now < DayFromYear 10000"
  shows "\<exists>g. getGraphDataForYear now yr data fy = Inr g"
proof -
  obtain bs where bs: "getBlocksForYear now yr data fy = Inr bs" "\<And>week. week \<in> set bs \<Longrightarrow> labelled week"
    using blocks_total [OF assms, of yr data fy] by blast
  obtain ls where "getMonthLabels bs fy = Inr ls"
    using getMonthLabels_total [of bs fy] bs(2) by blast
  with bs(1) show ?thesis
    by (simp add: getGraphDataForYear_def)
qed






section \<open>The rolling total\<close>

lemma findIndex_none: "(\<And>a. a \<in> set as \<Longrightarrow> \<not> P a) \<Longrightarrow> findIndex P as = - 1"
  by (induction as) simp_all

lemma findIndex_first:
  "b < length as \<Longrightarrow> P (as ! b) \<Longrightarrow> (\<And>j. j < b \<Longrightarrow> \<not> P (as ! j)) \<Longrightarrow> findIndex P as = int b"
proof (induction as arbitrary: b)
  case Nil
  then show ?case by simp
next
  case (Cons a as)
  show ?case
  proof (cases b)
    case 0
    with Cons.prems(2) show ?thesis by simp
  next
    case (Suc b')
    have "\<not> P a"
      using Cons.prems(3) [of 0] Suc by simp
    moreover have "findIndex P as = int b'"
    proof (rule Cons.IH)
      show "b' < length as" using Cons.prems(1) Suc by simp
      show "P (as ! b')" using Cons.prems(2) Suc by simp
      show "\<not> P (as ! j)" if "j < b'" for j
        using Cons.prems(3) [of "Suc j"] that Suc by simp
    qed
    ultimately show ?thesis
      using Suc by (simp add: Let_def)
  qed
qed

lemma slice_nat:
  "b \<le> length xs \<Longrightarrow> e \<le> length xs \<Longrightarrow> slice xs (int b) (int e) = map ((!) xs) [b..<e]"
proof -
  assume b: "b \<le> length xs" and e: "e \<le> length xs"
  have "slice xs (int b) (int e) = take (e - b) (drop b xs)"
    using b e by (simp add: slice_def Let_def min_def nat_diff_distrib')
  also have "\<dots> = drop b (take e xs)"
    by (simp add: drop_take)
  also have "\<dots> = map ((!) xs) [b..<e]"
  proof (rule nth_equalityI)
    show "length (drop b (take e xs)) = length (map ((!) xs) [b..<e])"
      using e by simp
    fix i
    assume "i < length (drop b (take e xs))"
    then have "i < e - b"
      using e by simp
    then show "drop b (take e xs) ! i = map ((!) xs) [b..<e] ! i"
      using e by simp
  qed
  finally show ?thesis .
qed

lemma foldl_count: "foldl (\<lambda>acc c. acc + f c) z ys = z + sum_list (map f ys)" for z :: int
  by (induction ys arbitrary: z) simp_all

lemma sum_slice:
  assumes "b \<le> length xs" and "e \<le> length xs"
  shows "foldl (\<lambda>acc c. acc + count c) 0 (slice xs (int b) (int e)) = (\<Sum>i = b..<e. count (xs ! i))"
  by (simp add: slice_nat [OF assms] foldl_count comp_def interv_sum_list_conv_sum_set_nat)

lemma day_2024_03_15: "19797 = MakeDay 2024 2 15"
  by (simp add: day_eval)

lemma valid_2024_03_15: "validateDate 2024 2 15" "validateDate 2023 2 15"
  by (simp_all add: valid_eval)

lemma today_19797: "format 19797 DATE_FORMAT = ''2024-03-15''"
  unfolding day_2024_03_15 by (simp add: format_MakeDay valid_2024_03_15 pad_eval)

lemma year_ago_19797: "format (subYears 19797 1) DATE_FORMAT = ''2023-03-15''"
proof -
  have "subYears (MakeDay 2024 2 15) 1 = MakeDay 2023 2 15"
    by (simp add: subYears_def getFullYear_def fields_of_MakeDay [OF valid_2024_03_15(1)] daysInMonth_def)
  then show ?thesis
    unfolding day_2024_03_15 by (simp add: format_MakeDay valid_2024_03_15 pad_eval)
qed

section \<open>The claims\<close>

text \<open>
  Claim C1, as the code has it. For a request that is not full-year and a target year from
  1000 to 9998, the grid is returned, and it is the sequence of the cells of the consecutive
  days from a Sunday \<open>s0\<close> to December 31 of the target year, cut into week columns; \<open>s0\<close> is
  not after the first Sunday on or after January 1. Every column has between 1 and 7 cells
  and starts with the cell of a Sunday, and every column but the last has 7 cells. So every
  date from the first Sunday on or after January 1 to December 31 is covered; the days of the
  year before that Sunday are neither promised nor excluded.
\<close>

theorem calendar_grid_cover:
  assumes "1000 \<le> yr" and "yr \<le> 9998"
  shows "\<exists>bs s0. getBlocksForYear now yr data False = Inr bs \<and>
           getDay s0 = 0 \<and>
           s0 \<le> MakeDay (int yr) 0 1 + (7 - getDay (MakeDay (int yr) 0 1)) mod 7 \<and>
           concat bs = map (cell data) [s0..MakeDay (int yr) 11 31] \<and>
           (\<forall>col \<in> set bs. col \<noteq> [] \<and> length col \<le> 7 \<and> (\<exists>s. getDay s = 0 \<and> hd col = cell data s)) \<and>
           (\<forall>col \<in> set (butlast bs). length col = 7)"
proof -
  define f where "f = DayFromYear (int yr)"
  define l where "l = DayFromYear (int yr + 1) - 1"
  define s0 where "s0 = sunday_of (f + getDay f)"
  have b: "getBlocksForYear now yr data False = Inr (grid f l data)"
    unfolding f_def l_def using assms by (rule getBlocksForYear_calendar)
  have 1: "getDay s0 = 0"
    unfolding s0_def by (rule getDay_sunday_of)
  have 2: "s0 \<le> f + (7 - getDay f) mod 7"
    unfolding s0_def using anchor_sunday [of f] by simp
  have 3: "concat (grid f l data) = map (cell data) [s0..l]"
    unfolding s0_def by (rule grid_concat)
  have 4: "col \<noteq> [] \<and> length col \<le> 7 \<and> (\<exists>s. getDay s = 0 \<and> hd col = cell data s)"
    if "col \<in> set (grid f l data)" for col
  proof -
    from grid_columns [OF that] obtain s where s: "getDay s = 0" "s \<le> l"
        "col = map (cell data) [s..min (s + 6) l]"
      by blast
    then have "col \<noteq> []" "length col \<le> 7" "hd col = cell data s"
      by (simp_all add: upto_rec1)
    with s(1) show ?thesis by blast
  qed
  have 5: "length col = 7" if "col \<in> set (butlast (grid f l data))" for col
    using that by (rule grid_butlast)
  show ?thesis
    unfolding MakeDay_jan1 MakeDay_dec31 f_def [symmetric] l_def [symmetric]
    using b 1 2 3 4 5 by blast
qed

text \<open>The theorem of C1 at the year 2019.\<close>

theorem calendar_grid_cover_witness:
  "\<exists>bs s0. getBlocksForYear 0 2019 example_primary False = Inr bs \<and>
           getDay s0 = 0 \<and>
           s0 \<le> MakeDay (int 2019) 0 1 + (7 - getDay (MakeDay (int 2019) 0 1)) mod 7 \<and>
           concat bs = map (cell example_primary) [s0..MakeDay (int 2019) 11 31] \<and>
           (\<forall>col \<in> set bs. col \<noteq> [] \<and> length col \<le> 7 \<and> (\<exists>s. getDay s = 0 \<and> hd col = cell example_primary s)) \<and>
           (\<forall>col \<in> set (butlast bs). length col = 7)"
  by (rule calendar_grid_cover) simp_all

text \<open>
  The claim C1 as the specification states it (every date from January 1 on is covered)
  fails for 2015, whose January 1 is a Thursday: the grid is returned, and no cell of it has
  the date 2015-01-01.
\<close>

theorem calendar_grid_cover_counterexample:
  "\<not> isl (getBlocksForYear 0 2015 example_primary False) \<and>
   format (MakeDay 2015 0 1) DATE_FORMAT = ''2015-01-01'' \<and>
   ''2015-01-01'' \<notin> Block.date ` set (concat (projr (getBlocksForYear 0 2015 example_primary False)))"
proof -
  have c: "concat (grid 16436 16800 example_primary) = map (cell example_primary) [16439..16800]"
    by (simp only: grid_concat anchor_2015)
  have n: "''2015-01-01'' \<notin> Block.date ` set (map (cell example_primary) [16439..16800])"
  proof (rule date_not_in_cells)
    fix n :: int
    assume n: "16439 \<le> n" "n \<le> 16800"
    show "format n DATE_FORMAT \<noteq> ''2015-01-01''"
    proof
      assume "format n DATE_FORMAT = ''2015-01-01''"
      then have "format n DATE_FORMAT = format 16436 DATE_FORMAT"
        by (simp only: format_jan1_2015)
      then have "n = 16436"
        using n by (intro format_inj) (simp_all add: range_bounds)
      with n show False by simp
    qed
  qed
  show ?thesis
    by (simp only: blocks_2015 sum.disc sum.sel c jan1_2015 format_jan1_2015 n simp_thms)
qed

text \<open>
  Claim C2, as the code has it. When no record is dated today the rolling total is 0. When
  \<open>b\<close> is the first index of a record dated today, and \<open>e\<close> is the first index of a record
  dated one year before today or, when there is none, the last index of the sequence, the
  total is the sum of \<open>count\<close> over the indices from \<open>b\<close> up to and excluding \<open>e\<close>: the slice
  starts at today's record, which it includes, and ends before the record of one year ago;
  it is empty, and the total 0, when \<open>e\<close> is not after \<open>b\<close>.
\<close>

theorem rolling_total:
  "((\<forall>c \<in> set (contributions data). Contrib.date c \<noteq> format now DATE_FORMAT) \<longrightarrow>
       getContributionCountForLastYear now data = 0) \<and>
   (\<forall>b e. b < length (contributions data) \<and>
          Contrib.date (contributions data ! b) = format now DATE_FORMAT \<and>
          (\<forall>j < b. Contrib.date (contributions data ! j) \<noteq> format now DATE_FORMAT) \<and>
          ((e < length (contributions data) \<and>
            Contrib.date (contributions data ! e) = format (subYears now 1) DATE_FORMAT \<and>
            (\<forall>j < e. Contrib.date (contributions data ! j) \<noteq> format (subYears now 1) DATE_FORMAT))
           \<or> ((\<forall>c \<in> set (contributions data). Contrib.date c \<noteq> format (subYears now 1) DATE_FORMAT) \<and>
               e + 1 = length (contributions data)))
      \<longrightarrow> getContributionCountForLastYear now data = (\<Sum>i = b..<e. count (contributions data ! i)))"
proof (intro conjI impI allI)
  assume "\<forall>c \<in> set (contributions data). Contrib.date c \<noteq> format now DATE_FORMAT"
  then have "findIndex (\<lambda>contrib. Contrib.date contrib = format now DATE_FORMAT) (contributions data) = - 1"
    by (intro findIndex_none) simp
  then show "getContributionCountForLastYear now data = 0"
    by (simp add: getContributionCountForLastYear_def)
next
  fix b e
  let ?cs = "contributions data"
  let ?today = "format now DATE_FORMAT"
  let ?ago = "format (subYears now 1) DATE_FORMAT"
  assume h: "b < length ?cs \<and> Contrib.date (?cs ! b) = ?today \<and>
          (\<forall>j < b. Contrib.date (?cs ! j) \<noteq> ?today) \<and>
          ((e < length ?cs \<and> Contrib.date (?cs ! e) = ?ago \<and> (\<forall>j < e. Contrib.date (?cs ! j) \<noteq> ?ago))
           \<or> ((\<forall>c \<in> set ?cs. Contrib.date c \<noteq> ?ago) \<and> e + 1 = length ?cs))"
  then have bi: "findIndex (\<lambda>contrib. Contrib.date contrib = ?today) ?cs = int b"
    by (intro findIndex_first) simp_all
  have ei: "(let e0 = findIndex (\<lambda>contrib. Contrib.date contrib = ?ago) ?cs
             in if e0 = - 1 then int (length ?cs) - 1 else e0) = int e"
  proof -
    from h consider
        (found) "e < length ?cs" "Contrib.date (?cs ! e) = ?ago" "\<forall>j < e. Contrib.date (?cs ! j) \<noteq> ?ago"
      | (none) "\<forall>c \<in> set ?cs. Contrib.date c \<noteq> ?ago" "e + 1 = length ?cs"
      by blast
    then show ?thesis
    proof cases
      case found
      then have "findIndex (\<lambda>contrib. Contrib.date contrib = ?ago) ?cs = int e"
        by (intro findIndex_first) simp_all
      then show ?thesis by simp
    next
      case none
      then have "findIndex (\<lambda>contrib. Contrib.date contrib = ?ago) ?cs = - 1"
        by (intro findIndex_none) simp
      with none(2) show ?thesis by (simp add: Let_def)
    qed
  qed
  have le: "b \<le> length ?cs" "e \<le> length ?cs"
    using h by auto
  have "getContributionCountForLastYear now data
        = foldl (\<lambda>acc contrib. acc + count contrib) 0 (slice ?cs (int b) (int e))"
    using ei by (simp add: getContributionCountForLastYear_def bi Let_def)
  then show "getContributionCountForLastYear now data = (\<Sum>i = b..<e. count (?cs ! i))"
    by (simp only: sum_slice [OF le])
qed

text \<open>The theorem of C2 at 2024-03-15, on three records newest first and on records none of
  which is dated today.\<close>

theorem rolling_total_witness:
  "getContributionCountForLastYear 19797 example_descending = 5 + 3 \<and>
   getContributionCountForLastYear 19797 example_primary = 0"
proof -
  have cs: "contributions example_descending =
      [\<lparr>Contrib.date = ''2024-03-15'', count = 5, color = ''#7bc96f'', intensity = Some 2\<rparr>,
       \<lparr>Contrib.date = ''2024-03-14'', count = 3, color = ''#c6e48b'', intensity = Some 1\<rparr>,
       \<lparr>Contrib.date = ''2023-03-15'', count = 7, color = ''#7bc96f'', intensity = Some 2\<rparr>]"
    by (simp add: example_descending_def)
  have h: "0 < length (contributions example_descending) \<and>
          Contrib.date (contributions example_descending ! 0) = format 19797 DATE_FORMAT \<and>
          (\<forall>j < 0. Contrib.date (contributions example_descending ! j) \<noteq> format 19797 DATE_FORMAT) \<and>
          ((2 < length (contributions example_descending) \<and>
            Contrib.date (contributions example_descending ! 2) = format (subYears 19797 1) DATE_FORMAT \<and>
            (\<forall>j < 2. Contrib.date (contributions example_descending ! j) \<noteq> format (subYears 19797 1) DATE_FORMAT))
           \<or> ((\<forall>c \<in> set (contributions example_descending). Contrib.date c \<noteq> format (subYears 19797 1) DATE_FORMAT) \<and>
               2 + 1 = length (contributions example_descending)))"
    by (simp add: cs today_19797 year_ago_19797 less_Suc_eq numeral_2_eq_2)
  have s: "(\<Sum>i = 0..<2. count (contributions example_descending ! i)) = 5 + 3"
    by (simp add: cs numeral_2_eq_2)
  have n: "\<forall>c \<in> set (contributions example_primary). Contrib.date c \<noteq> format 19797 DATE_FORMAT"
    by (simp add: example_primary_def today_19797)
  note t = rolling_total [of example_descending 19797]
  note u = rolling_total [of example_primary 19797]
  from t h s have "getContributionCountForLastYear 19797 example_descending = 5 + 3"
    by (metis (no_types, lifting))
  moreover from u n have "getContributionCountForLastYear 19797 example_primary = 0"
    by blast
  ultimately show ?thesis
    by blast
qed

text \<open>
  The claim C2 as the specification states it (the slice runs from the record of one year
  ago up to and excluding today's record) fails at 2024-03-15. Oldest first, the record of
  one year ago is at index 0 and today's at index 2, the counts at the indices 0 and 1 sum to
  10, and the code returns 0. Newest first, today's record is at index 0 with count 5, and the
  code returns 5 + 3, which includes today's count.
\<close>

theorem rolling_total_counterexample:
  "Contrib.date (contributions example_ascending ! 2) = format 19797 DATE_FORMAT \<and>
   Contrib.date (contributions example_ascending ! 0) = format (subYears 19797 1) DATE_FORMAT \<and>
   count (contributions example_ascending ! 0) + count (contributions example_ascending ! 1) = 10 \<and>
   getContributionCountForLastYear 19797 example_ascending = 0 \<and>
   Contrib.date (contributions example_descending ! 0) = format 19797 DATE_FORMAT \<and>
   Contrib.date (contributions example_descending ! 2) = format (subYears 19797 1) DATE_FORMAT \<and>
   count (contributions example_descending ! 0) = 5 \<and>
   getContributionCountForLastYear 19797 example_descending = 5 + 3"
  by (simp add: getContributionCountForLastYear_def today_19797 year_ago_19797 example_ascending_def
      example_descending_def slice_def Let_def)

text \<open>
  Claim C3, as the code has it. When the merged count of a record (its count plus the
  secondary count of its date) is the count of no primary record, the resulting record has the
  merged count and the colour \<open>''red''\<close>, and it keeps the intensity of the primary record: the
  object spread copies the property and nothing removes it.
\<close>

theorem merger_overflow_keeps_intensity:
  assumes "i < length (contributions gh)"
    and "gl (Contrib.date (contributions gh ! i)) = Some g"
    and "count (contributions gh ! i) + g \<notin> count ` set (contributions gh)"
  shows "color (contributions (combineContributions tz gl gh) ! i) = ''red'' \<and>
         intensity (contributions (combineContributions tz gl gh) ! i) = intensity (contributions gh ! i) \<and>
         count (contributions (combineContributions tz gl gh) ! i) = count (contributions gh ! i) + g"
proof -
  have "build_table (contributions gh) (count (contributions gh ! i) + g) = None"
    using assms(3) by (simp add: build_table_None)
  then show ?thesis
    using assms(1,2) by (simp add: contributions_combine merge_one_def Let_def)
qed

text \<open>The theorem of C3 at the first record of the example.\<close>

theorem merger_overflow_keeps_intensity_witness:
  "color (contributions (combineContributions 0 example_secondary example_primary) ! 0) = ''red'' \<and>
   intensity (contributions (combineContributions 0 example_secondary example_primary) ! 0) = Some 2 \<and>
   count (contributions (combineContributions 0 example_secondary example_primary) ! 0) = 7"
proof -
  have a: "0 < length (contributions example_primary)"
    by (simp add: example_primary_def)
  have b: "example_secondary (Contrib.date (contributions example_primary ! 0)) = Some 2"
    by (simp add: example_primary_def example_secondary_def)
  have c: "count (contributions example_primary ! 0) + 2 \<notin> count ` set (contributions example_primary)"
    by (simp add: example_primary_def)
  show ?thesis
    using merger_overflow_keeps_intensity
      [where i = 0 and gh = example_primary and gl = example_secondary and g = 2 and tz = 0]
      a b c
    by (simp add: example_primary_def)
qed

text \<open>
  The claim C3 as the specification states it (the intensity is absent) fails on the example:
  the merged count 7 is the count of no primary record, and the resulting record still has
  an intensity.
\<close>

theorem merger_overflow_intensity_counterexample:
  "7 \<notin> count ` set (contributions example_primary) \<and>
   count (contributions (combineContributions 0 example_secondary example_primary) ! 0) = 7 \<and>
   color (contributions (combineContributions 0 example_secondary example_primary) ! 0) = ''red'' \<and>
   intensity (contributions (combineContributions 0 example_secondary example_primary) ! 0) \<noteq> None"
  by (simp add: example_merged) (simp add: example_primary_def)

text \<open>
  Claim C4 at the year 2017, whose January 1 is a Sunday. The first week column starts on
  2017-01-01 and the first label is \<open>Jan\<close> at column 0: \<open>previousMonth\<close> starts at 0, which is the
  month of no column, since the months compared with it are numbered from 1. A tracker that
  started at January would leave this column without a label.
\<close>

theorem january_label_at_column_0:
  "Block.date (hd (hd (blocks (projr (getGraphDataForYear 0 2017 example_primary False))))) = ''2017-01-01'' \<and>
   hd (monthLabels (projr (getGraphDataForYear 0 2017 example_primary False)))
     = \<lparr>x = 0, label = ''Jan''\<rparr>"
proof -
  define g where "g = grid 17167 17531 example_primary"
  define rest where "rest = map (week_cells example_primary 17531) (week_starts (17167 + 7) 17531)"
  define bs where "bs = map (cell example_primary) [17167 + 1..17167 + 6]"
  have g: "g = (cell example_primary 17167 # bs) # rest"
    unfolding g_def rest_def bs_def grid_def anchor_2017
    by (subst week_starts.simps) (simp add: week_cells_def upto_rec1)
  have lab: "labelled week" if "week \<in> set rest" for week
  proof -
    from that have "week \<in> set g"
      by (simp add: g)
    then show ?thesis
      unfolding g_def by (intro grid_labelled [of 17167 17531]) (simp_all add: range_bounds)
  qed
  have p: "parseISO (Block.date (cell example_primary 17167)) = Some 17167"
    by (simp add: cell_def parseISO_format range_bounds)
  have m: "getMonth 17167 = 0"
    unfolding jan1_2017 using valid_jan1_2017 by (rule fields_of_MakeDay)
  have f: "format 17167 ''MMM'' = ''Jan''"
    unfolding jan1_2017 by (simp add: format_MMM_MakeDay [OF valid_jan1_2017] month_abbr_def)
  have d: "Block.date (cell example_primary 17167) = ''2017-01-01''"
    unfolding jan1_2017 cell_def
    by (simp add: format_MakeDay [OF valid_jan1_2017] pad_eval)
  obtain ls where "labels_loop g 0 0 = Inr (\<lparr>x = 0, label = format 17167 ''MMM''\<rparr> # ls)"
    unfolding g using labels_loop_first [OF p _ lab] m by auto
  then have "getMonthLabels g False = Inr (\<lparr>x = 0, label = ''Jan''\<rparr> # ls)"
    by (simp add: getMonthLabels_def f)
  moreover have "Block.date (hd (hd g)) = ''2017-01-01''"
    by (simp add: g d)
  ultimately show ?thesis
    unfolding g_def by (simp add: getGraphDataForYear_def blocks_2017)
qed

text \<open>
  Claim C5 at the year 2019, whose January 1 is a Tuesday. The next Sunday after the window
  start is 2019-01-06; the first week column of the grid starts on 2018-12-30, the Sunday
  before the window start.
\<close>

theorem first_week_of_2019:
  "format (MakeDay 2019 0 1) DATE_FORMAT = ''2019-01-01'' \<and> getDay (MakeDay 2019 0 1) = 2 \<and>
   format (MakeDay 2019 0 6) DATE_FORMAT = ''2019-01-06'' \<and> getDay (MakeDay 2019 0 6) = 0 \<and>
   map Block.date (hd (projr (getBlocksForYear 0 2019 example_primary False))) =
     [''2018-12-30'', ''2018-12-31'', ''2019-01-01'', ''2019-01-02'', ''2019-01-03'', ''2019-01-04'',
      ''2019-01-05'']"
proof -
  have "hd (grid 17897 18261 example_primary) = map (cell example_primary) [17895..17895 + 6]"
    using grid_hd [of 17897 18261 example_primary] by (simp only: anchor_2019) simp
  then have "map Block.date (hd (grid 17897 18261 example_primary)) =
      map (\<lambda>n. format n DATE_FORMAT) [17895, 17896, 17897, 17898, 17899, 17900, 17901]"
    by (simp only: upto_7 map_date_cell) simp
  moreover have "MakeDay 2019 0 1 = 17897" "MakeDay 2019 0 6 = 17902"
    by (simp_all add: day_eval)
  moreover have "getDay 17897 = 2" "getDay 17902 = 0"
    by (simp_all add: getDay_def)
  ultimately show ?thesis
    using dates_2019 by (simp add: blocks_2019)
qed

text \<open>
  Claim C6. The merged \<open>contributions\<close> has the length of the primary sequence; a primary
  record whose date is a key of the secondary map appears at the same position with the same
  date and with \<open>count = primaryCount + secondaryCount\<close>; a primary record whose date is not
  a key of the secondary map is passed through unchanged.
\<close>

theorem merger_count_and_passthrough:
  "length (contributions (combineContributions tz gl gh)) = length (contributions gh) \<and>
   (\<forall>i < length (contributions gh).
      (case gl (Contrib.date (contributions gh ! i)) of
         Some g \<Rightarrow>
           Contrib.date (contributions (combineContributions tz gl gh) ! i) = Contrib.date (contributions gh ! i) \<and>
           count (contributions (combineContributions tz gl gh) ! i) = count (contributions gh ! i) + g
       | None \<Rightarrow> contributions (combineContributions tz gl gh) ! i = contributions gh ! i))"
  by (auto simp: contributions_combine merge_one_def Let_def split: option.splits prod.splits)

text \<open>The theorem of C6 on the example, at a touched and at an untouched record.\<close>

theorem merger_count_and_passthrough_witness:
  "length (contributions (combineContributions 0 example_secondary example_primary)) = 2 \<and>
   count (contributions (combineContributions 0 example_secondary example_primary) ! 0) = 5 + 2 \<and>
   contributions (combineContributions 0 example_secondary example_primary) ! 1
     = contributions example_primary ! 1"
proof -
  have l: "length (contributions example_primary) = 2"
    by (simp add: example_primary_def)
  have g0: "example_secondary (Contrib.date (contributions example_primary ! 0)) = Some 2"
    by (simp add: example_primary_def example_secondary_def)
  have g1: "example_secondary (Contrib.date (contributions example_primary ! 1)) = None"
    by (simp add: example_primary_def example_secondary_def)
  have c0: "count (contributions example_primary ! 0) = 5"
    by (simp add: example_primary_def)
  note t = merger_count_and_passthrough [of 0 example_secondary example_primary]
  from t l have "length (contributions (combineContributions 0 example_secondary example_primary)) = 2"
    by simp
  moreover from t l g0 c0
  have "count (contributions (combineContributions 0 example_secondary example_primary) ! 0) = 5 + 2"
    by (auto dest: spec [where x = 0])
  moreover from t l g1
  have "contributions (combineContributions 0 example_secondary example_primary) ! 1
     = contributions example_primary ! 1"
    by (auto dest: spec [where x = 1])
  ultimately show ?thesis
    by blast
qed

text \<open>
  Claim C7 on a host five hours west of UTC. The year key of 2023-01-01 is \<open>''2022''\<close>: the
  date string is read as midnight UTC and its year is taken in local time. The touched date
  2023-01-01 is therefore added to the total of 2022, and the total of 2023 stays as it was. On
  a host at UTC the same date is added to the total of 2023, as the claim says.
\<close>

theorem new_year_day_west_of_utc:
  "yearKey (- 300) ''2023-01-01'' = ''2022'' \<and>
   ApiResult.years (combineContributions (- 300) [''2023-01-01'' \<mapsto> 2] example_new_year) =
     [\<lparr>YearEntry.year = ''2023'', total = 5, range_y = (''2023-01-01'', ''2023-12-31'')\<rparr>,
      \<lparr>YearEntry.year = ''2022'', total = 9 + 1, range_y = (''2022-01-01'', ''2022-12-31'')\<rparr>] \<and>
   ApiResult.years (combineContributions 0 [''2023-01-01'' \<mapsto> 2] example_new_year) =
     [\<lparr>YearEntry.year = ''2023'', total = 5 + 1, range_y = (''2023-01-01'', ''2023-12-31'')\<rparr>,
      \<lparr>YearEntry.year = ''2022'', total = 9, range_y = (''2022-01-01'', ''2022-12-31'')\<rparr>]"
  by (simp add: years_combine example_new_year_def yearKey_examples)

text \<open>
  Claim C8. With the current day in the years 1000 to 9999, the orchestrator returns the
  error \<open>No data available\<close> when the merged series has no year summary, and nothing else then;
  when the merged series has a year summary it returns one result per requested year and no
  error. So it fails, and with this message, exactly when the merged series has no year
  summary.
\<close>

theorem no_data_error:
  assumes "DayFromYear 1000 \<le> now" and "now < DayFromYear 10000"
  shows "(ApiResult.years (combineContributions tz gl gh) = [] \<longrightarrow>
            getGitHubGraphData tz now gh gl opts = Inl (Error ''No data available'')) \<and>
         (ApiResult.years (combineContributions tz gl gh) \<noteq> [] \<longrightarrow>
            (\<exists>rs. getGitHubGraphData tz now gh gl opts = Inr rs \<and>
                  length rs = length (RequestOptions.years opts)))"
proof (intro conjI impI)
  assume "ApiResult.years (combineContributions tz gl gh) = []"
  then show "getGitHubGraphData tz now gh gl opts = Inl (Error ''No data available'')"
    by (simp add: getGitHubGraphData_def)
next
  assume ne: "ApiResult.years (combineContributions tz gl gh) \<noteq> []"
  let ?f = "\<lambda>yr. let isCurrentYear = (case parseISO (show_nat yr) of None \<Rightarrow> False
                                        | Some d \<Rightarrow> isSameYear d now)
                  in getGraphDataForYear now yr (combineContributions tz gl gh)
                       (isCurrentYear \<and> fullYear opts)"
  have "\<exists>b. ?f a = Inr b \<and> True" for a
    using getGraphDataForYear_total [OF assms] by (simp add: Let_def)
  then have "\<exists>rs. map_result ?f (RequestOptions.years opts) = Inr rs \<and>
      length rs = length (RequestOptions.years opts) \<and> (\<forall>b \<in> set rs. True)"
    by (intro map_result_total) blast
  with ne show "\<exists>rs. getGitHubGraphData tz now gh gl opts = Inr rs \<and>
      length rs = length (RequestOptions.years opts)"
    by (simp add: getGitHubGraphData_def Let_def)
qed

text \<open>The theorem of C8 at 2024-03-15, on a primary series without year summaries and on the
  example.\<close>

theorem no_data_error_witness:
  "getGitHubGraphData 0 19797 \<lparr>ApiResult.years = [], contributions = []\<rparr> example_secondary
      \<lparr>fullYear = True, gitHubUsername = None, gitLabUsername = None, years = [2024]\<rparr>
     = Inl (Error ''No data available'') \<and>
   (\<exists>rs. getGitHubGraphData 0 19797 example_primary example_secondary
      \<lparr>fullYear = True, gitHubUsername = None, gitLabUsername = None, years = [2023, 2024]\<rparr> = Inr rs \<and>
      length rs = 2)"
proof -
  have a: "DayFromYear 1000 \<le> 19797" "19797 < DayFromYear 10000"
    by (simp_all add: DayFromYear_def)
  have e: "ApiResult.years (combineContributions 0 example_secondary
             \<lparr>ApiResult.years = [], contributions = []\<rparr>) = []"
    by (simp add: years_combine)
  have n: "ApiResult.years (combineContributions 0 example_secondary example_primary) \<noteq> []"
    by (simp add: years_combine example_primary_def)
  from no_data_error [OF a, of 0 example_secondary "\<lparr>ApiResult.years = [], contributions = []\<rparr>"] e
  have "getGitHubGraphData 0 19797 \<lparr>ApiResult.years = [], contributions = []\<rparr> example_secondary
      \<lparr>fullYear = True, gitHubUsername = None, gitLabUsername = None, years = [2024]\<rparr>
     = Inl (Error ''No data available'')"
    by blast
  moreover from no_data_error [OF a, of 0 example_secondary example_primary
      "\<lparr>fullYear = True, gitHubUsername = None, gitLabUsername = None, years = [2023, 2024]\<rparr>"] n
  have "\<exists>rs. getGitHubGraphData 0 19797 example_primary example_secondary
      \<lparr>fullYear = True, gitHubUsername = None, gitLabUsername = None, years = [2023, 2024]\<rparr> = Inr rs \<and>
      length rs = 2"
    by (auto simp: numeral_2_eq_2)
  ultimately show ?thesis
    by blast
qed







end
